theory Spec2Isabelle
  imports Main "HOL-Library.Word" "HOL-Library.Sublist"
begin

section \<open>Strings of the slide packer (services/powerpoint.ts)\<close>

text \<open>
  A JavaScript string is a sequence of UTF-16 code units.  Literals of the source are
  written with \<open>js\<close>, which maps an ASCII literal to its code units.
\<close>

type_synonym jschar = "16 word"
type_synonym jsstring = "jschar list"

definition js :: "string \<Rightarrow> jsstring" where
  "js s = map of_char s"

definition nl :: jschar where
  "nl = 0x0A"

definition sp :: jschar where
  "sp = 0x20"

text \<open>
  The code units matched by \<open>\s\<close> in a regular expression, which are also the ones
  removed by \<open>String.prototype.trim\<close>: the WhiteSpace and LineTerminator productions
  of ECMAScript.
\<close>

definition isWhiteSpace :: "jschar \<Rightarrow> bool" where
  "isWhiteSpace c \<longleftrightarrow>
     c = 0x09 \<or> c = 0x0A \<or> c = 0x0B \<or> c = 0x0C \<or> c = 0x0D \<or> c = 0x20 \<or> c = 0xA0 \<or>
     c = 0x1680 \<or> (0x2000 \<le> c \<and> c \<le> 0x200A) \<or> c = 0x2028 \<or> c = 0x2029 \<or>
     c = 0x202F \<or> c = 0x205F \<or> c = 0x3000 \<or> c = 0xFEFF"

text \<open>\<open>\d\<close>: the ASCII digits.\<close>

definition isDigit :: "jschar \<Rightarrow> bool" where
  "isDigit c \<longleftrightarrow> 0x30 \<le> c \<and> c \<le> 0x39"

text \<open>\<open>s.trim()\<close>\<close>

definition trim :: "jsstring \<Rightarrow> jsstring" where
  "trim s = rev (dropWhile isWhiteSpace (rev (dropWhile isWhiteSpace s)))"

subsection \<open>\<open>String.prototype.split\<close>\<close>

text \<open>
  A matcher stands for the separator: given the code unit just before a position
  (\<open>None\<close> at the start of the string) and the rest of the string from that position, it
  returns the length of the separator's match there, if there is one.

  \<open>js_split\<close> is the loop of \<open>split\<close>: it scans the positions from left to right;
  where the separator matches (with a non-empty match) the piece read so far is pushed
  and the scan goes on after the match; at the end the last piece is pushed.  The piece
  being read is kept reversed in \<open>cur\<close>.  None of the separators below matches the empty
  string, so the empty input gives one empty piece.
\<close>

type_synonym matcher = "jschar option \<Rightarrow> jsstring \<Rightarrow> nat option"

fun js_split :: "matcher \<Rightarrow> jschar option \<Rightarrow> jsstring \<Rightarrow> jsstring \<Rightarrow> jsstring list" where
  "js_split m prev cur [] = [rev cur]"
| "js_split m prev cur (c # cs) =
     (case m prev (c # cs) of
        Some (Suc n) \<Rightarrow> rev cur # js_split m (Some (last (c # take n cs))) [] (drop n cs)
      | _ \<Rightarrow> js_split m (Some c) (c # cur) cs)"

text \<open>\<open>/\s+/\<close>: the longest run of white space at the position.\<close>

definition match_ws :: matcher where
  "match_ws prev s =
     (let n = length (takeWhile isWhiteSpace s) in if 0 < n then Some n else None)"

text \<open>\<open>/(?<=[.!?])\s+/\<close>: a run of white space just after a sentence terminal.\<close>

definition isTerminal :: "jschar \<Rightarrow> bool" where
  "isTerminal c \<longleftrightarrow> c = 0x2E \<or> c = 0x21 \<or> c = 0x3F"

definition match_after_terminal :: matcher where
  "match_after_terminal prev s =
     (case prev of
        None \<Rightarrow> None
      | Some p \<Rightarrow> if isTerminal p then match_ws prev s else None)"

text \<open>
  \<open>/\n\s*\n/\<close>: a newline, then white space, then a newline.  \<open>\s*\<close> is greedy and
  backtracks, so the match ends at the last newline of the white space that follows the
  first newline.
\<close>

definition match_blank_line :: matcher where
  "match_blank_line prev s =
     (case s of
        [] \<Rightarrow> None
      | c # rest \<Rightarrow>
          if c = nl then
            (let ws = takeWhile isWhiteSpace rest;
                 k = length (dropWhile (\<lambda>x. x \<noteq> nl) (rev ws))
             in if 0 < k then Some (Suc k) else None)
          else None)"

text \<open>The string separator \<open>'\n'\<close>.\<close>

definition match_nl :: matcher where
  "match_nl prev s = (case s of [] \<Rightarrow> None | c # rest \<Rightarrow> if c = nl then Some 1 else None)"

subsection \<open>\<open>countWords\<close> and \<open>splitIntoSentences\<close>\<close>

definition MIN_WORDS_PER_SLIDE :: nat where
  "MIN_WORDS_PER_SLIDE = 80"

definition MAX_WORDS_PER_SLIDE :: nat where
  "MAX_WORDS_PER_SLIDE = 90"

definition countWords :: "jsstring \<Rightarrow> nat" where
  "countWords text =
     length (filter (\<lambda>word. 0 < length word) (js_split match_ws None [] (trim text)))"

definition splitIntoSentences :: "jsstring \<Rightarrow> jsstring list" where
  "splitIntoSentences text =
     filter (\<lambda>sentence. 0 < length sentence)
       (map (\<lambda>sentence. trim sentence) (js_split match_after_terminal None [] text))"

subsection \<open>Reading mode: \<open>optimizeContentForWordCount\<close> and \<open>mergeSmallChunks\<close>\<close>

record chunk =
  content :: jsstring
  wordCount :: nat

text \<open>\<open>current += (current ? sep : '') + unit\<close>\<close>

definition append_unit :: "jschar \<Rightarrow> jsstring \<Rightarrow> jsstring \<Rightarrow> jsstring" where
  "append_unit sep current unit = current @ (if current \<noteq> [] then [sep] else []) @ unit"

text \<open>
  The loop over the sentences, with the local variables of the source as arguments.
  The first equation is the code after the loop, which pushes the last chunk.
\<close>

fun pack_sentences :: "jsstring list \<Rightarrow> chunk list \<Rightarrow> jsstring \<Rightarrow> nat \<Rightarrow> chunk list" where
  "pack_sentences [] optimizedChunks currentChunk currentWordCount =
     (if trim currentChunk \<noteq> []
      then optimizedChunks @ [\<lparr>content = trim currentChunk, wordCount = currentWordCount\<rparr>]
      else optimizedChunks)"
| "pack_sentences (sentence # sentences) optimizedChunks currentChunk currentWordCount =
     (let sentenceWordCount = countWords sentence;
          potentialWordCount = currentWordCount + sentenceWordCount
      in if potentialWordCount > MAX_WORDS_PER_SLIDE \<and> currentWordCount > 0 then
           (let forced = (currentWordCount < MIN_WORDS_PER_SLIDE \<and> sentenceWordCount \<le> 15);
                currentChunk1 =
                  (if forced then append_unit sp currentChunk sentence else currentChunk);
                currentWordCount1 =
                  (if forced then potentialWordCount else currentWordCount);
                optimizedChunks1 =
                  (if trim currentChunk1 \<noteq> []
                   then optimizedChunks @
                     [\<lparr>content = trim currentChunk1, wordCount = currentWordCount1\<rparr>]
                   else optimizedChunks)
            in pack_sentences sentences optimizedChunks1 sentence sentenceWordCount)
         else
           pack_sentences sentences optimizedChunks
             (append_unit sp currentChunk sentence) potentialWordCount)"

text \<open>
  The loop of \<open>mergeSmallChunks\<close> over the index \<open>i\<close>, as a recursion on the chunks
  from \<open>i\<close> on: \<open>i < chunks.length - 1\<close> holds when a next chunk exists, and \<open>i++;
  continue\<close> skips it.
\<close>

fun mergeSmallChunks :: "chunk list \<Rightarrow> chunk list" where
  "mergeSmallChunks [] = []"
| "mergeSmallChunks [currentChunk] = [currentChunk]"
| "mergeSmallChunks (currentChunk # nextChunk # chunks) =
     (let combinedWordCount = wordCount currentChunk + wordCount nextChunk
      in if wordCount currentChunk < MIN_WORDS_PER_SLIDE \<and>
            combinedWordCount \<le> MAX_WORDS_PER_SLIDE
         then \<lparr>content = content currentChunk @ [sp] @ content nextChunk,
                wordCount = combinedWordCount\<rparr> # mergeSmallChunks chunks
         else currentChunk # mergeSmallChunks (nextChunk # chunks))"

definition optimizeContentForWordCount :: "jsstring \<Rightarrow> chunk list" where
  "optimizeContentForWordCount text =
     mergeSmallChunks (pack_sentences (splitIntoSentences text) [] [] 0)"

subsection \<open>Song mode: \<open>splitSongIntoSections\<close> and \<open>optimizeSongForWordCount\<close>\<close>

datatype section_type = Verse | Refrain | NumberedVerse

record verse = chunk +
  type :: section_type

text \<open>A section \<open>{content, type}\<close> of the lyrics is a pair.\<close>

type_synonym song_section = "jsstring \<times> section_type"

definition startsWith :: "jsstring \<Rightarrow> jsstring \<Rightarrow> bool" where
  "startsWith s p \<longleftrightarrow> take (length p) s = p"

fun js_includes :: "jsstring \<Rightarrow> jsstring \<Rightarrow> bool" where
  "js_includes [] p \<longleftrightarrow> p = []"
| "js_includes (c # cs) p \<longleftrightarrow> startsWith (c # cs) p \<or> js_includes cs p"

text \<open>
  \<open>toLowerCase\<close>, on the letters A to Z.  The source lower-cases every code point; the
  result is only searched for \<open>refrain\<close>, and the only other code point whose lower case
  holds one of these letters is U+0130, which becomes \<open>i\<close> followed by U+0307 and so
  never lies inside an occurrence of \<open>refrain\<close>.
\<close>

definition toLowerCase :: "jsstring \<Rightarrow> jsstring" where
  "toLowerCase s = map (\<lambda>c. if 0x41 \<le> c \<and> c \<le> 0x5A then c + 0x20 else c) s"

text \<open>
  \<open>s.match(/^(\d+)\./)\<close>, returning the group: \<open>\d+\<close> takes all the leading digits,
  and no shorter run of digits is followed by a period.
\<close>

definition match_leading_number :: "jsstring \<Rightarrow> jsstring option" where
  "match_leading_number s =
     (let digits = takeWhile isDigit s
      in case dropWhile isDigit s of
           [] \<Rightarrow> None
         | c # rest \<Rightarrow> if digits \<noteq> [] \<and> c = 0x2E then Some digits else None)"

definition section_type_of :: "jsstring \<Rightarrow> section_type" where
  "section_type_of trimmedPart =
     (if startsWith trimmedPart (js ''R/'') \<or>
         js_includes (toLowerCase trimmedPart) (js ''refrain'')
      then Refrain
      else if match_leading_number trimmedPart \<noteq> None then NumberedVerse
      else Verse)"

definition splitSongIntoSections :: "jsstring \<Rightarrow> song_section list" where
  "splitSongIntoSections lyrics =
     foldl (\<lambda>sections part.
              let trimmedPart = trim part
              in if length trimmedPart = 0 then sections
                 else sections @ [(trimmedPart, section_type_of trimmedPart)])
       [] (js_split match_blank_line None [] lyrics)"

text \<open>The loop over the lines of a section that does not fit in one slide.\<close>

fun pack_lines ::
  "section_type \<Rightarrow> jsstring list \<Rightarrow> verse list \<Rightarrow> jsstring \<Rightarrow> nat \<Rightarrow> verse list" where
  "pack_lines t [] optimizedVerses currentVerse currentWordCount =
     (if trim currentVerse \<noteq> []
      then optimizedVerses @
        [\<lparr>content = trim currentVerse, wordCount = currentWordCount, type = t\<rparr>]
      else optimizedVerses)"
| "pack_lines t (line # lines) optimizedVerses currentVerse currentWordCount =
     (let lineWordCount = countWords line;
          potentialWordCount = currentWordCount + lineWordCount
      in if potentialWordCount > MAX_WORDS_PER_SLIDE \<and> currentWordCount > 0 then
           pack_lines t lines
             (optimizedVerses @
                [\<lparr>content = trim currentVerse, wordCount = currentWordCount, type = t\<rparr>])
             line lineWordCount
         else
           pack_lines t lines optimizedVerses
             (append_unit nl currentVerse line) potentialWordCount)"

text \<open>The body of the loop over the sections.\<close>

definition optimizeSection :: "verse list \<Rightarrow> song_section \<Rightarrow> verse list" where
  "optimizeSection optimizedVerses section =
     (let wordCount = countWords (fst section)
      in if wordCount \<le> MAX_WORDS_PER_SLIDE
         then optimizedVerses @
           [\<lparr>content = fst section, wordCount = wordCount, type = snd section\<rparr>]
         else pack_lines (snd section) (js_split match_nl None [] (fst section))
                optimizedVerses [] 0)"

definition optimizeSongForWordCount :: "jsstring \<Rightarrow> verse list" where
  "optimizeSongForWordCount lyrics =
     foldl optimizeSection [] (splitSongIntoSections lyrics)"

subsection \<open>Slide titles: \<open>generateOptimizedVerseTitle\<close> and \<open>createOptimizedSongSlides\<close>\<close>

text \<open>The decimal digits of a number, as a template literal prints it.\<close>

function numberToString :: "nat \<Rightarrow> jsstring" where
  "numberToString n =
     (if n < 10 then [0x30 + of_nat n]
      else numberToString (n div 10) @ [0x30 + of_nat (n mod 10)])"
  by pat_completeness auto
termination
  by (relation "measure id") auto

definition generateOptimizedVerseTitle :: "verse \<Rightarrow> jsstring \<Rightarrow> nat \<Rightarrow> nat \<Rightarrow> jsstring" where
  "generateOptimizedVerseTitle verse songTitle index total' =
     (let baseTitle =
        (case type verse of
           Refrain \<Rightarrow> songTitle @ js '' - Refrain''
         | NumberedVerse \<Rightarrow>
             songTitle @ js '' - Couplet '' @
               (case match_leading_number (content verse) of
                  Some m \<Rightarrow> m
                | None \<Rightarrow> numberToString index)
         | Verse \<Rightarrow> songTitle @ js '' - Partie '' @ numberToString index)
      in baseTitle @ js '' ('' @ numberToString index @ js ''/'' @ numberToString total' @ js '')'')"

record song =
  title :: jsstring
  lyrics :: jsstring

text \<open>
  The slides that \<open>createOptimizedSongSlides\<close> adds for the verses, each with the
  texts it is given: the title, the content and the word count.  The title slide and the
  layout of the texts are left to the presentation library.
\<close>

record slide = chunk +
  slideTitle :: jsstring

definition createOptimizedSongSlides :: "song \<Rightarrow> slide list" where
  "createOptimizedSongSlides song =
     (let optimizedVerses = optimizeSongForWordCount (lyrics song)
      in map (\<lambda>(index, verse).
                \<lparr>content = content verse, wordCount = wordCount verse,
                 slideTitle = generateOptimizedVerseTitle verse (title song) (index + 1)
                                (length optimizedVerses)\<rparr>)
           (enumerate 0 optimizedVerses))"

section \<open>Notions used in the statements\<close>

text \<open>\<open>parts.join(sep)\<close>\<close>

fun join_with :: "jschar \<Rightarrow> jsstring list \<Rightarrow> jsstring" where
  "join_with sep [] = []"
| "join_with sep [p] = p"
| "join_with sep (p # q # ps) = p @ [sep] @ join_with sep (q # ps)"

text \<open>
  Collapsing white space: the words of a string, joined by single spaces (every run of
  white space becomes one space, and the white space at both ends is dropped).
\<close>

definition collapse_whitespace :: "jsstring \<Rightarrow> jsstring" where
  "collapse_whitespace s =
     join_with sp (filter (\<lambda>w. w \<noteq> []) (js_split match_ws None [] s))"

text \<open>The number of places where a word starts; \<open>inw\<close> says that a word is being read.\<close>

fun word_starts :: "bool \<Rightarrow> jsstring \<Rightarrow> nat" where
  "word_starts inw [] = 0"
| "word_starts inw (c # cs) =
     (if isWhiteSpace c then word_starts False cs
      else (if inw then 0 else 1) + word_starts True cs)"

text \<open>A non-empty string with no white space at either end.\<close>

definition trimmed :: "jsstring \<Rightarrow> bool" where
  "trimmed s \<longleftrightarrow> s \<noteq> [] \<and> \<not> isWhiteSpace (hd s) \<and> \<not> isWhiteSpace (last s)"

text \<open>
  A well-formed chunk: its content is not empty and is trimmed, and its word count is
  the number of words of its content.
\<close>

definition chunk_ok :: "'a chunk_scheme \<Rightarrow> bool" where
  "chunk_ok c \<longleftrightarrow>
     content c \<noteq> [] \<and> trim (content c) = content c \<and> wordCount c = countWords (content c)"

text \<open>The content and the word count of a chunk of a song.\<close>

definition chunk_of :: "'a chunk_scheme \<Rightarrow> chunk" where
  "chunk_of v = \<lparr>content = content v, wordCount = wordCount v\<rparr>"

text \<open>
  The merge pass with every chunk of its result marked: \<open>True\<close> for a chunk produced by
  a merge, \<open>False\<close> for a chunk kept as it was.
\<close>

fun mergeSmallChunks_tagged :: "chunk list \<Rightarrow> (chunk \<times> bool) list" where
  "mergeSmallChunks_tagged [] = []"
| "mergeSmallChunks_tagged [currentChunk] = [(currentChunk, False)]"
| "mergeSmallChunks_tagged (currentChunk # nextChunk # chunks) =
     (let combinedWordCount = wordCount currentChunk + wordCount nextChunk
      in if wordCount currentChunk < MIN_WORDS_PER_SLIDE \<and>
            combinedWordCount \<le> MAX_WORDS_PER_SLIDE
         then (\<lparr>content = content currentChunk @ [sp] @ content nextChunk,
                 wordCount = combinedWordCount\<rparr>, True) # mergeSmallChunks_tagged chunks
         else (currentChunk, False) # mergeSmallChunks_tagged (nextChunk # chunks))"

text \<open>
  The greedy packer as the specification words it (steps 1 to 5), over a sequence of
  units joined by \<open>sep\<close>; \<open>overflow_exception\<close> says whether step 3a applies.  A closed
  chunk holds the trimmed text of the accumulator.
  \<^enum> The accumulator starts empty, with word count 0.
  \<^enum> For each unit, \<open>would_be\<close> is the current word count plus the unit's.
  \<^enum> If \<open>would_be > MAX\<close> and the current word count is positive: (a) if the current
    word count is under \<open>MIN\<close> and the unit has at most 15 words, the unit is appended
    and the chunk closed; (b) otherwise the chunk is closed and a new one starts with
    the unit.
  \<^enum> Otherwise the unit is appended and the word count becomes \<open>would_be\<close>.
  \<^enum> After the last unit, the accumulator is emitted if it has content.
\<close>

fun spec_greedy_pack :: "bool \<Rightarrow> jschar \<Rightarrow> jsstring list \<Rightarrow> jsstring \<Rightarrow> nat \<Rightarrow> chunk list" where
  "spec_greedy_pack overflow_exception sep [] current current_word_count =
     (if 0 < current_word_count
      then [\<lparr>content = trim current, wordCount = current_word_count\<rparr>]
      else [])"
| "spec_greedy_pack overflow_exception sep (u # units) current current_word_count =
     (let unit_word_count = countWords u;
          would_be = current_word_count + unit_word_count
      in if would_be > MAX_WORDS_PER_SLIDE \<and> current_word_count > 0 then
           (if overflow_exception \<and> current_word_count < MIN_WORDS_PER_SLIDE \<and>
               unit_word_count \<le> 15
            then \<lparr>content = trim (append_unit sep current u), wordCount = would_be\<rparr> #
                 spec_greedy_pack overflow_exception sep units [] 0
            else \<lparr>content = trim current, wordCount = current_word_count\<rparr> #
                 spec_greedy_pack overflow_exception sep units u unit_word_count)
         else spec_greedy_pack overflow_exception sep units (append_unit sep current u) would_be)"

text \<open>The first line of a section, trimmed.\<close>

definition first_line :: "jsstring \<Rightarrow> jsstring" where
  "first_line s = trim (takeWhile (\<lambda>c. c \<noteq> nl) s)"

text \<open>
  The chunks are consecutive runs of the units, in order, and cover all of them: the
  content of each chunk is the trimmed join of its run and its word count is the sum of
  the word counts of the units of the run.  A unit of more than \<open>MAX\<close> words is the only
  unit of its run.  A run may start again at the last unit of the run before it only
  after a chunk of more than \<open>MAX\<close> words whose last unit has at most 15 words.
\<close>

primrec runs_of :: "jschar \<Rightarrow> chunk list \<Rightarrow> jsstring list \<Rightarrow> bool" where
  "runs_of sep [] units \<longleftrightarrow> units = []"
| "runs_of sep (c # cs) units \<longleftrightarrow>
     (\<exists>g rest. g \<noteq> [] \<and> units = g @ rest \<and> content c = trim (join_with sep g) \<and>
        wordCount c = sum_list (map countWords g) \<and>
        (\<forall>u\<in>set g. MAX_WORDS_PER_SLIDE < countWords u \<longrightarrow> g = [u]) \<and>
        (runs_of sep cs rest \<or>
         (MAX_WORDS_PER_SLIDE < wordCount c \<and> countWords (last g) \<le> 15 \<and>
          runs_of sep cs (last g # rest))))"

text \<open>
  The inputs of the examples are built from sentences of \<open>n\<close> times the same word,
  ended by a period.
\<close>

definition sentence_of :: "nat \<Rightarrow> jsstring \<Rightarrow> jsstring" where
  "sentence_of n w = join_with sp (replicate n w) @ js ''.''"

text \<open>A section of two lines, of 79 and of 12 words.\<close>

definition two_line_section :: jsstring where
  "two_line_section = sentence_of 79 (js ''mot'') @ [nl] @ sentence_of 12 (js ''mot'')"

text \<open>A text of three sentences, of 79, of 12 and of 3 words.\<close>

definition three_sentence_text :: jsstring where
  "three_sentence_text =
     join_with sp [sentence_of 79 (js ''mot''), sentence_of 12 (js ''mot''),
                   sentence_of 3 (js ''mot'')]"

text \<open>A text of two sentences, of 79 and of 12 words.\<close>

definition two_sentence_text :: jsstring where
  "two_sentence_text = join_with sp [sentence_of 79 (js ''mot''), sentence_of 12 (js ''mot'')]"

text \<open>A text of two sentences, of 10 and of 200 words.\<close>

definition long_sentence_text :: jsstring where
  "long_sentence_text = join_with sp [sentence_of 10 (js ''mot''), sentence_of 200 (js ''mot'')]"

text \<open>A section of two lines, of 10 and of 200 words.\<close>

definition long_line_section :: jsstring where
  "long_line_section = sentence_of 10 (js ''mot'') @ [nl] @ sentence_of 200 (js ''mot'')"

section \<open>Words and trimming\<close>


lemma word_starts_dropWhile:
  "word_starts False (dropWhile isWhiteSpace s) = word_starts False s"
  by (induction s) auto

lemma word_starts_append_spaces:
  "\<forall>c\<in>set t. isWhiteSpace c \<Longrightarrow> word_starts b (s @ t) = word_starts b s"
proof (induction s arbitrary: b)
  case Nil
  then show ?case by (induction t arbitrary: b) auto
next
  case (Cons a s)
  then show ?case by simp
qed

lemma rev_dropWhile_decomp:
  "s = rev (dropWhile P (rev s)) @ rev (takeWhile P (rev s))"
proof -
  have "rev (dropWhile P (rev s)) @ rev (takeWhile P (rev s)) =
        rev (takeWhile P (rev s) @ dropWhile P (rev s))"
    by (simp only: rev_append)
  also have "\<dots> = s" by simp
  finally show ?thesis by simp
qed

lemma word_starts_strip_right:
  "word_starts b (rev (dropWhile isWhiteSpace (rev s))) = word_starts b s"
proof -
  let ?t = "rev (takeWhile isWhiteSpace (rev s))"
  have "\<forall>c\<in>set ?t. isWhiteSpace c" by (auto dest: set_takeWhileD)
  from word_starts_append_spaces[OF this, of b "rev (dropWhile isWhiteSpace (rev s))"]
  show ?thesis using rev_dropWhile_decomp[of s isWhiteSpace] by simp
qed

lemma word_starts_trim: "word_starts False (trim s) = word_starts False s"
  by (simp add: trim_def word_starts_strip_right word_starts_dropWhile)

lemma match_ws_space:
  "isWhiteSpace c \<Longrightarrow> match_ws prev (c # cs) = Some (Suc (length (takeWhile isWhiteSpace cs)))"
  by (simp add: match_ws_def)

lemma match_ws_nonspace: "\<not> isWhiteSpace c \<Longrightarrow> match_ws prev (c # cs) = None"
  by (simp add: match_ws_def)

lemma split_ws_count:
  "length (filter (\<lambda>w. 0 < length w) (js_split match_ws prev cur s)) =
     word_starts (cur \<noteq> []) s + (if cur \<noteq> [] then 1 else 0)"
proof (induction s arbitrary: prev cur rule: length_induct)
  case (1 s)
  show ?case
  proof (cases s)
    case Nil
    then show ?thesis by simp
  next
    case (Cons c cs)
    show ?thesis
    proof (cases "isWhiteSpace c")
      case True
      have len: "length (dropWhile isWhiteSpace cs) < length s"
        using Cons by (simp add: le_imp_less_Suc length_dropWhile_le)
      have "length (filter (\<lambda>w. 0 < length w)
              (js_split match_ws (Some (last (c # take (length (takeWhile isWhiteSpace cs)) cs)))
                 [] (dropWhile isWhiteSpace cs))) =
            word_starts False (dropWhile isWhiteSpace cs)"
        using 1 len by simp
      then show ?thesis
        using Cons True
        by (simp add: match_ws_space word_starts_dropWhile dropWhile_eq_drop[symmetric])
    next
      case False
      have "length (filter (\<lambda>w. 0 < length w) (js_split match_ws (Some c) (c # cur) cs)) =
            word_starts True cs + 1"
        using 1 Cons by simp
      then show ?thesis using Cons False by (simp add: match_ws_nonspace)
    qed
  qed
qed

lemma countWords_word_starts: "countWords s = word_starts False s"
  by (simp only: countWords_def split_ws_count) (simp add: word_starts_trim)

lemma word_starts_sep:
  "isWhiteSpace x \<Longrightarrow> word_starts b (s @ x # t) = word_starts b s + word_starts False t"
  by (induction s arbitrary: b) auto

lemma word_starts_all_space: "\<forall>c\<in>set s. isWhiteSpace c \<Longrightarrow> word_starts b s = 0"
  by (induction s arbitrary: b) auto

lemma word_starts_pos: "\<exists>c\<in>set s. \<not> isWhiteSpace c \<Longrightarrow> 0 < word_starts False s"
  by (induction s) auto

lemma countWords_pos_iff: "0 < countWords s \<longleftrightarrow> (\<exists>c\<in>set s. \<not> isWhiteSpace c)"
proof (cases "\<exists>c\<in>set s. \<not> isWhiteSpace c")
  case True
  then show ?thesis using word_starts_pos[of s] by (simp add: countWords_word_starts)
next
  case False
  then have "word_starts False s = 0" by (intro word_starts_all_space) simp
  with False show ?thesis by (simp add: countWords_word_starts)
qed

lemma countWords_Nil: "countWords [] = 0"
  by (simp add: countWords_word_starts)

lemma countWords_append_unit:
  "isWhiteSpace sep \<Longrightarrow> countWords (append_unit sep a b) = countWords a + countWords b"
  by (simp add: append_unit_def countWords_word_starts word_starts_sep)

lemma countWords_trim: "countWords (trim s) = countWords s"
  by (simp add: countWords_word_starts word_starts_trim)

lemma dropWhile_all_iff:
  "(\<forall>c\<in>set (dropWhile P s). P c) \<longleftrightarrow> (\<forall>c\<in>set s. P c)"
  by (induction s) auto

lemma trim_eq_Nil_iff: "trim s = [] \<longleftrightarrow> (\<forall>c\<in>set s. isWhiteSpace c)"
  by (simp add: trim_def dropWhile_eq_Nil_conv dropWhile_all_iff)

lemma trim_nonempty_iff: "trim s \<noteq> [] \<longleftrightarrow> 0 < countWords s"
  by (simp add: trim_eq_Nil_iff countWords_pos_iff)

lemma isWhiteSpace_sp: "isWhiteSpace sp" by (simp add: isWhiteSpace_def sp_def)
lemma isWhiteSpace_nl: "isWhiteSpace nl" by (simp add: isWhiteSpace_def nl_def)


lemma trim_trimmed: "trimmed s \<Longrightarrow> trim s = s"
proof -
  assume t: "trimmed s"
  then obtain c cs where s: "s = c # cs" by (cases s) (auto simp: trimmed_def)
  with t have 1: "dropWhile isWhiteSpace s = s" by (simp add: trimmed_def)
  from t have "rev s \<noteq> []" "\<not> isWhiteSpace (hd (rev s))"
    by (auto simp: trimmed_def hd_rev)
  then have 2: "dropWhile isWhiteSpace (rev s) = rev s" by (cases "rev s") auto
  show ?thesis by (simp add: trim_def 1 2)
qed

lemma last_dropWhile: "dropWhile P xs \<noteq> [] \<Longrightarrow> last (dropWhile P xs) = last xs"
  by (induction xs) (auto split: if_splits)

lemma trimmed_trim: "trim s \<noteq> [] \<Longrightarrow> trimmed (trim s)"
proof -
  assume ne: "trim s \<noteq> []"
  let ?t = "dropWhile isWhiteSpace s"
  let ?u = "dropWhile isWhiteSpace (rev ?t)"
  from ne have u: "?u \<noteq> []" by (simp add: trim_def)
  have t: "?t \<noteq> []"
  proof
    assume "?t = []"
    then have "?u = []" by (simp only: rev.simps dropWhile.simps)
    with u show False by simp
  qed
  have hu: "\<not> isWhiteSpace (hd ?u)" using u by (rule hd_dropWhile)
  have ht: "\<not> isWhiteSpace (hd ?t)" using t by (rule hd_dropWhile)
  have "last ?u = last (rev ?t)" using u by (rule last_dropWhile)
  also have "\<dots> = hd ?t" using t by (simp add: last_rev)
  finally have lu: "\<not> isWhiteSpace (last ?u)" using ht by simp
  have "trim s = rev ?u" by (simp add: trim_def)
  then show ?thesis using u hu lu by (simp add: trimmed_def hd_rev last_rev)
qed

lemma trim_Nil: "trim [] = []"
  by (simp add: trim_def)

lemma trim_idem: "trim (trim s) = trim s"
proof (cases "trim s = []")
  case True
  then show ?thesis by (simp add: trim_Nil)
next
  case False
  then show ?thesis using trimmed_trim trim_trimmed by blast
qed

lemma trimmed_sep: "trimmed a \<Longrightarrow> trimmed b \<Longrightarrow> trimmed (a @ x # b)"
  by (simp add: trimmed_def hd_append)

lemma trimmed_nonempty: "trimmed s \<Longrightarrow> s \<noteq> []"
  by (simp add: trimmed_def)

lemma trimmed_countWords_pos: "trimmed s \<Longrightarrow> 0 < countWords s"
  using trim_trimmed[of s] trim_nonempty_iff[of s] by (simp add: trimmed_def)

section \<open>Well-formed chunks\<close>

lemma chunk_ok_trim:
  "trim cur \<noteq> [] \<Longrightarrow> chunk_ok \<lparr>content = trim cur, wordCount = countWords cur\<rparr>"
  by (simp add: chunk_ok_def trim_idem countWords_trim)

lemma pack_sentences_append:
  assumes "\<not> (MAX_WORDS_PER_SLIDE < cw + countWords s \<and> 0 < cw)"
  shows "pack_sentences (s # ss) oc cur cw =
         pack_sentences ss oc (append_unit sp cur s) (cw + countWords s)"
  using assms by (auto simp: Let_def)

lemma pack_sentences_close:
  assumes "MAX_WORDS_PER_SLIDE < cw + countWords s" "0 < cw"
    and "\<not> (cw < MIN_WORDS_PER_SLIDE \<and> countWords s \<le> 15)"
  shows "pack_sentences (s # ss) oc cur cw =
         pack_sentences ss
           (if trim cur \<noteq> [] then oc @ [\<lparr>content = trim cur, wordCount = cw\<rparr>] else oc)
           s (countWords s)"
  using assms by (auto simp: Let_def)

lemma pack_sentences_force:
  assumes "MAX_WORDS_PER_SLIDE < cw + countWords s" "0 < cw"
    and "cw < MIN_WORDS_PER_SLIDE" "countWords s \<le> 15"
  shows "pack_sentences (s # ss) oc cur cw =
         pack_sentences ss
           (if trim (append_unit sp cur s) \<noteq> []
            then oc @ [\<lparr>content = trim (append_unit sp cur s),
                        wordCount = cw + countWords s\<rparr>]
            else oc)
           s (countWords s)"
  using assms by (auto simp: Let_def)

declare pack_sentences.simps(2) [simp del]

lemma pack_sentences_ok:
  "cw = countWords cur \<Longrightarrow> \<forall>c\<in>set oc. chunk_ok c \<Longrightarrow>
     \<forall>c\<in>set (pack_sentences ss oc cur cw). chunk_ok c"
proof (induction ss arbitrary: oc cur cw)
  case Nil
  then show ?case by (simp add: chunk_ok_trim)
next
  case (Cons s ss)
  let ?n = "countWords s"
  consider (app) "\<not> (MAX_WORDS_PER_SLIDE < cw + ?n \<and> 0 < cw)"
    | (close) "MAX_WORDS_PER_SLIDE < cw + ?n" "0 < cw"
        "\<not> (cw < MIN_WORDS_PER_SLIDE \<and> ?n \<le> 15)"
    | (force) "MAX_WORDS_PER_SLIDE < cw + ?n" "0 < cw"
        "cw < MIN_WORDS_PER_SLIDE" "?n \<le> 15"
    by blast
  then show ?case
  proof cases
    case app
    have "\<forall>c\<in>set (pack_sentences ss oc (append_unit sp cur s) (cw + ?n)). chunk_ok c"
      using Cons.prems by (intro Cons.IH) (simp_all add: countWords_append_unit isWhiteSpace_sp)
    then show ?thesis by (simp only: pack_sentences_append[OF app])
  next
    case close
    let ?oc1 = "if trim cur \<noteq> [] then oc @ [\<lparr>content = trim cur, wordCount = cw\<rparr>] else oc"
    have "\<forall>c\<in>set ?oc1. chunk_ok c"
      using Cons.prems chunk_ok_trim[of cur] by auto
    then have "\<forall>c\<in>set (pack_sentences ss ?oc1 s ?n). chunk_ok c"
      by (intro Cons.IH) simp_all
    then show ?thesis by (simp only: pack_sentences_close[OF close])
  next
    case force
    let ?cur1 = "append_unit sp cur s"
    let ?oc1 = "if trim ?cur1 \<noteq> []
                then oc @ [\<lparr>content = trim ?cur1, wordCount = cw + ?n\<rparr>] else oc"
    have "cw + ?n = countWords ?cur1"
      using Cons.prems(1) by (simp add: countWords_append_unit isWhiteSpace_sp)
    then have "\<forall>c\<in>set ?oc1. chunk_ok c"
      using Cons.prems(2) chunk_ok_trim[of ?cur1] by auto
    then have "\<forall>c\<in>set (pack_sentences ss ?oc1 s ?n). chunk_ok c"
      by (intro Cons.IH) simp_all
    then show ?thesis by (simp only: pack_sentences_force[OF force])
  qed
qed

lemma chunk_ok_merged:
  assumes "chunk_ok a" "chunk_ok b"
  shows "chunk_ok \<lparr>content = content a @ sp # content b,
                   wordCount = wordCount a + wordCount b\<rparr>"
proof -
  from assms have ta: "trimmed (content a)" and tb: "trimmed (content b)"
    using trimmed_trim[of "content a"] trimmed_trim[of "content b"]
    by (simp_all add: chunk_ok_def)
  then have "trimmed (content a @ sp # content b)" by (rule trimmed_sep)
  then have "trim (content a @ sp # content b) = content a @ sp # content b"
    by (rule trim_trimmed)
  moreover have "countWords (content a @ sp # content b) =
                 countWords (content a) + countWords (content b)"
    by (simp add: countWords_word_starts word_starts_sep isWhiteSpace_sp)
  ultimately show ?thesis using assms by (simp add: chunk_ok_def)
qed

lemma mergeSmallChunks_ok:
  "\<forall>c\<in>set cs. chunk_ok c \<Longrightarrow> \<forall>c\<in>set (mergeSmallChunks cs). chunk_ok c"
proof (induction cs rule: mergeSmallChunks.induct)
  case 1
  then show ?case by simp
next
  case (2 c)
  then show ?case by simp
next
  case (3 c n cs)
  then show ?case by (auto simp: Let_def chunk_ok_merged)
qed

lemma verse_ok_trim:
  "trim cur \<noteq> [] \<Longrightarrow>
     chunk_ok \<lparr>content = trim cur, wordCount = countWords cur, type = t\<rparr>"
  by (simp add: chunk_ok_def trim_idem countWords_trim)

lemma pack_lines_append:
  assumes "\<not> (MAX_WORDS_PER_SLIDE < cw + countWords l \<and> 0 < cw)"
  shows "pack_lines t (l # ls) ov cur cw =
         pack_lines t ls ov (append_unit nl cur l) (cw + countWords l)"
  using assms by (auto simp: Let_def)

lemma pack_lines_close:
  assumes "MAX_WORDS_PER_SLIDE < cw + countWords l" "0 < cw"
  shows "pack_lines t (l # ls) ov cur cw =
         pack_lines t ls (ov @ [\<lparr>content = trim cur, wordCount = cw, type = t\<rparr>])
           l (countWords l)"
  using assms by (auto simp: Let_def)

declare pack_lines.simps(2) [simp del]

lemma pack_lines_ok:
  "cw = countWords cur \<Longrightarrow> \<forall>c\<in>set ov. chunk_ok c \<Longrightarrow>
     \<forall>c\<in>set (pack_lines t ls ov cur cw). chunk_ok c"
proof (induction ls arbitrary: ov cur cw)
  case Nil
  then show ?case by (simp add: verse_ok_trim)
next
  case (Cons l ls)
  let ?n = "countWords l"
  show ?case
  proof (cases "MAX_WORDS_PER_SLIDE < cw + ?n \<and> 0 < cw")
    case False
    have "\<forall>c\<in>set (pack_lines t ls ov (append_unit nl cur l) (cw + ?n)). chunk_ok c"
      using Cons.prems by (intro Cons.IH) (simp_all add: countWords_append_unit isWhiteSpace_nl)
    then show ?thesis by (simp only: pack_lines_append[OF False])
  next
    case True
    then have "trim cur \<noteq> []" using Cons.prems(1) by (simp add: trim_nonempty_iff)
    then have "chunk_ok \<lparr>content = trim cur, wordCount = cw, type = t\<rparr>"
      using Cons.prems(1) by (simp add: verse_ok_trim)
    then have "\<forall>c\<in>set (ov @ [\<lparr>content = trim cur, wordCount = cw, type = t\<rparr>]). chunk_ok c"
      using Cons.prems(2) by simp
    then have "\<forall>c\<in>set (pack_lines t ls (ov @ [\<lparr>content = trim cur, wordCount = cw, type = t\<rparr>])
                 l ?n). chunk_ok c"
      by (intro Cons.IH) simp_all
    moreover from True have "MAX_WORDS_PER_SLIDE < cw + ?n" "0 < cw" by simp_all
    ultimately show ?thesis by (simp only: pack_lines_close)
  qed
qed

lemma splitSong_foldl:
  "foldl (\<lambda>sections part.
            let trimmedPart = trim part
            in if length trimmedPart = 0 then sections
               else sections @ [(trimmedPart, section_type_of trimmedPart)]) acc ps =
   acc @ map (\<lambda>p. (trim p, section_type_of (trim p))) (filter (\<lambda>p. trim p \<noteq> []) ps)"
  by (induction ps arbitrary: acc) (simp_all add: Let_def)

lemma splitSongIntoSections_eq:
  "splitSongIntoSections lyr =
     map (\<lambda>p. (trim p, section_type_of (trim p)))
       (filter (\<lambda>p. trim p \<noteq> []) (js_split match_blank_line None [] lyr))"
  by (simp only: splitSongIntoSections_def splitSong_foldl append_Nil)

lemma sections_trimmed:
  "sec \<in> set (splitSongIntoSections lyr) \<Longrightarrow> trimmed (fst sec)"
  by (auto simp: splitSongIntoSections_eq trimmed_trim)

lemma sections_type:
  "sec \<in> set (splitSongIntoSections lyr) \<Longrightarrow> snd sec = section_type_of (fst sec)"
  by (auto simp: splitSongIntoSections_eq)

lemma pack_lines_acc:
  "pack_lines t ls ov cur cw = ov @ pack_lines t ls [] cur cw"
proof (induction ls arbitrary: ov cur cw)
  case Nil
  then show ?case by simp
next
  case (Cons l ls)
  show ?case
  proof (cases "MAX_WORDS_PER_SLIDE < cw + countWords l \<and> 0 < cw")
    case False
    show ?thesis
      by (simp only: pack_lines_append[OF False]) (rule Cons.IH)
  next
    case True
    then have c: "MAX_WORDS_PER_SLIDE < cw + countWords l" "0 < cw" by simp_all
    show ?thesis
      using Cons.IH[of "ov @ [\<lparr>content = trim cur, wordCount = cw, type = t\<rparr>]"]
        Cons.IH[of "[\<lparr>content = trim cur, wordCount = cw, type = t\<rparr>]"]
      by (simp only: pack_lines_close[OF c]) simp
  qed
qed

lemma optimizeSection_acc: "optimizeSection ov sec = ov @ optimizeSection [] sec"
  using pack_lines_acc[of "snd sec" _ ov]
  by (simp add: optimizeSection_def Let_def)

lemma foldl_optimizeSection:
  "foldl optimizeSection ov secs = ov @ concat (map (optimizeSection []) secs)"
proof (induction secs arbitrary: ov)
  case Nil
  then show ?case by simp
next
  case (Cons sec secs)
  show ?case
    using Cons.IH[of "optimizeSection ov sec"] optimizeSection_acc[of ov sec] by simp
qed

lemma optimizeSong_concat:
  "optimizeSongForWordCount lyr =
     concat (map (optimizeSection []) (splitSongIntoSections lyr))"
  by (simp add: optimizeSongForWordCount_def foldl_optimizeSection)

lemma optimizeSection_ok:
  assumes "trimmed (fst sec)"
  shows "\<forall>c\<in>set (optimizeSection [] sec). chunk_ok c"
proof (cases "countWords (fst sec) \<le> MAX_WORDS_PER_SLIDE")
  case True
  then show ?thesis
    using assms by (simp add: optimizeSection_def chunk_ok_def trim_trimmed trimmed_nonempty)
next
  case False
  have "\<forall>c\<in>set (pack_lines (snd sec) (js_split match_nl None [] (fst sec)) [] [] 0). chunk_ok c"
    by (rule pack_lines_ok) (simp_all add: countWords_Nil)
  then show ?thesis using False by (simp add: optimizeSection_def)
qed

lemma pack_sentences_acc:
  "pack_sentences ss oc cur cw = oc @ pack_sentences ss [] cur cw"
proof (induction ss arbitrary: oc cur cw)
  case Nil
  then show ?case by simp
next
  case (Cons s ss)
  let ?n = "countWords s"
  consider (app) "\<not> (MAX_WORDS_PER_SLIDE < cw + ?n \<and> 0 < cw)"
    | (close) "MAX_WORDS_PER_SLIDE < cw + ?n" "0 < cw"
        "\<not> (cw < MIN_WORDS_PER_SLIDE \<and> ?n \<le> 15)"
    | (force) "MAX_WORDS_PER_SLIDE < cw + ?n" "0 < cw"
        "cw < MIN_WORDS_PER_SLIDE" "?n \<le> 15"
    by blast
  then show ?case
  proof cases
    case app
    show ?thesis by (simp only: pack_sentences_append[OF app]) (rule Cons.IH)
  next
    case close
    show ?thesis
      using Cons.IH[of "oc @ [\<lparr>content = trim cur, wordCount = cw\<rparr>]"]
        Cons.IH[of "[\<lparr>content = trim cur, wordCount = cw\<rparr>]"] Cons.IH[of oc]
      by (simp only: pack_sentences_close[OF close]) simp
  next
    case force
    let ?c = "\<lparr>content = trim (append_unit sp cur s), wordCount = cw + ?n\<rparr>"
    show ?thesis
      using Cons.IH[of "oc @ [?c]"] Cons.IH[of "[?c]"] Cons.IH[of oc]
      by (simp only: pack_sentences_force[OF force]) simp
  qed
qed

lemma chunk_ok_pos: "chunk_ok c \<Longrightarrow> 1 \<le> wordCount c"
proof -
  assume ok: "chunk_ok c"
  then have "trim (content c) \<noteq> []" by (simp add: chunk_ok_def)
  then have "0 < countWords (content c)" by (simp add: trim_nonempty_iff)
  with ok show ?thesis by (simp add: chunk_ok_def)
qed

lemma reading_chunks_ok: "\<forall>c\<in>set (optimizeContentForWordCount text). chunk_ok c"
  unfolding optimizeContentForWordCount_def
  by (intro mergeSmallChunks_ok pack_sentences_ok) (simp_all add: countWords_Nil)

lemma song_chunks_ok: "\<forall>v\<in>set (optimizeSongForWordCount lyr). chunk_ok v"
  using optimizeSection_ok sections_trimmed by (fastforce simp: optimizeSong_concat)

text \<open>
  C10.  Every chunk emitted in reading mode (after the merge pass) and every chunk
  emitted in song mode has a content that is not empty and is trimmed, and a word count
  equal to the number of words of that content; so the word count is at least 1.
\<close>

theorem chunks_well_formed:
  "(\<forall>c\<in>set (optimizeContentForWordCount text). chunk_ok c \<and> 1 \<le> wordCount c) \<and>
   (\<forall>v\<in>set (optimizeSongForWordCount lyr). chunk_ok v \<and> 1 \<le> wordCount v)"
proof (intro conjI ballI)
  fix c assume "c \<in> set (optimizeContentForWordCount text)"
  then show "chunk_ok c" using reading_chunks_ok by blast
  then show "1 \<le> wordCount c" by (rule chunk_ok_pos)
next
  fix v assume "v \<in> set (optimizeSongForWordCount lyr)"
  then show "chunk_ok v" using song_chunks_ok by blast
  then show "1 \<le> wordCount v" by (rule chunk_ok_pos)
qed

theorem chunks_well_formed_witness:
  "optimizeContentForWordCount (js ''Un.  Deux. '') =
     [\<lparr>content = js ''Un. Deux.'', wordCount = 2\<rparr>] \<and>
   chunk_ok \<lparr>content = js ''Un. Deux.'', wordCount = 2\<rparr> \<and>
   optimizeSongForWordCount (js ''R/ Gloria '') =
     [\<lparr>content = js ''R/ Gloria'', wordCount = 2, type = Refrain\<rparr>] \<and>
   chunk_ok \<lparr>content = js ''R/ Gloria'', wordCount = 2, type = Refrain\<rparr>"
proof -
  have a: "optimizeContentForWordCount (js ''Un.  Deux. '') =
     [\<lparr>content = js ''Un. Deux.'', wordCount = 2\<rparr>]"
    by code_simp
  have b: "optimizeSongForWordCount (js ''R/ Gloria '') =
     [\<lparr>content = js ''R/ Gloria'', wordCount = 2, type = Refrain\<rparr>]"
    by code_simp
  from chunks_well_formed[of "js ''Un.  Deux. ''" "js ''R/ Gloria ''"] a b
  show ?thesis by simp
qed

section \<open>Splitting\<close>

lemma js_split_pieces_subset:
  "p \<in> set (js_split m prev cur s) \<Longrightarrow> set p \<subseteq> set cur \<union> set s"
proof (induction s arbitrary: prev cur rule: length_induct)
  case (1 s)
  show ?case
  proof (cases s)
    case Nil
    with 1 show ?thesis by simp
  next
    case (Cons c cs)
    note IH = 1(1)[rule_format]
    show ?thesis
    proof (cases "\<exists>n. m prev (c # cs) = Some (Suc n)")
      case True
      then obtain n where n: "m prev (c # cs) = Some (Suc n)" by blast
      with 1(2) Cons have "p = rev cur \<or>
          p \<in> set (js_split m (Some (last (c # take n cs))) [] (drop n cs))"
        by simp
      then show ?thesis
      proof
        assume "p = rev cur"
        then show ?thesis by simp
      next
        assume "p \<in> set (js_split m (Some (last (c # take n cs))) [] (drop n cs))"
        moreover have "length (drop n cs) < length s" using Cons by simp
        ultimately have "set p \<subseteq> set [] \<union> set (drop n cs)" by (rule IH[rotated])
        then show ?thesis using Cons set_drop_subset[of n cs] by auto
      qed
    next
      case False
      then have "js_split m prev cur (c # cs) = js_split m (Some c) (c # cur) cs"
        by (cases "m prev (c # cs)") (auto split: nat.splits)
      with 1(2) Cons have "p \<in> set (js_split m (Some c) (c # cur) cs)" by simp
      moreover have "length cs < length s" using Cons by simp
      ultimately have "set p \<subseteq> set (c # cur) \<union> set cs" by (rule IH[rotated])
      then show ?thesis using Cons by auto
    qed
  qed
qed

lemma match_after_terminal_Some:
  "match_after_terminal prev (c # cs) = Some k \<Longrightarrow>
     isWhiteSpace c \<and> k = Suc (length (takeWhile isWhiteSpace cs))"
  by (auto simp: match_after_terminal_def match_ws_def Let_def split: option.splits if_splits)

lemma in_set_dropWhile: "x \<in> set xs \<Longrightarrow> \<not> P x \<Longrightarrow> x \<in> set (dropWhile P xs)"
  by (induction xs) auto

lemma split_sentences_covers:
  "\<not> isWhiteSpace x \<Longrightarrow> x \<in> set cur \<union> set s \<Longrightarrow>
     \<exists>p\<in>set (js_split match_after_terminal prev cur s). x \<in> set p"
proof (induction s arbitrary: prev cur rule: length_induct)
  case (1 s)
  show ?case
  proof (cases s)
    case Nil
    with 1 show ?thesis by simp
  next
    case (Cons c cs)
    note IH = 1(1)[rule_format]
    show ?thesis
    proof (cases "match_after_terminal prev (c # cs)")
      case None
      have "x \<in> set (c # cur) \<union> set cs" using 1(3) Cons by auto
      moreover have "length cs < length s" using Cons by simp
      ultimately have "\<exists>p\<in>set (js_split match_after_terminal (Some c) (c # cur) cs). x \<in> set p"
        using 1(2) IH by blast
      then show ?thesis using Cons None by simp
    next
      case (Some k)
      from match_after_terminal_Some[OF Some]
      have c: "isWhiteSpace c" and k: "k = Suc (length (takeWhile isWhiteSpace cs))" by simp_all
      let ?rest = "dropWhile isWhiteSpace cs"
      let ?prev = "Some (last (c # take (length (takeWhile isWhiteSpace cs)) cs))"
      have unfold: "js_split match_after_terminal prev cur s =
                    rev cur # js_split match_after_terminal ?prev [] ?rest"
        using Cons Some k by (simp add: dropWhile_eq_drop[symmetric])
      show ?thesis
      proof (cases "x \<in> set cur")
        case True
        then show ?thesis using unfold by simp
      next
        case False
        with 1(3) Cons c 1(2) have "x \<in> set cs" by auto
        then have "x \<in> set [] \<union> set ?rest" using 1(2) by (simp add: in_set_dropWhile)
        moreover have "length ?rest < length s"
          using Cons by (simp add: le_imp_less_Suc length_dropWhile_le)
        ultimately have "\<exists>p\<in>set (js_split match_after_terminal ?prev [] ?rest). x \<in> set p"
          using 1(2) IH by blast
        then show ?thesis using unfold by auto
      qed
    qed
  qed
qed

lemma splitIntoSentences_nonempty:
  assumes "\<exists>c\<in>set text. \<not> isWhiteSpace c"
  shows "splitIntoSentences text \<noteq> []"
proof -
  from assms obtain x where x: "x \<in> set text" "\<not> isWhiteSpace x" by blast
  then obtain p where p: "p \<in> set (js_split match_after_terminal None [] text)" "x \<in> set p"
    using split_sentences_covers[of x "[]" "text" None] by auto
  with x have "trim p \<noteq> []" by (auto simp: trim_eq_Nil_iff)
  with p have "trim p \<in> set (splitIntoSentences text)"
    by (auto simp: splitIntoSentences_def)
  then show ?thesis by auto
qed

lemma splitIntoSentences_empty:
  assumes "\<forall>c\<in>set text. isWhiteSpace c"
  shows "splitIntoSentences text = []"
proof -
  have "trim p = []" if "p \<in> set (js_split match_after_terminal None [] text)" for p
    using js_split_pieces_subset[OF that] assms by (auto simp: trim_eq_Nil_iff)
  then show ?thesis by (auto simp: splitIntoSentences_def filter_empty_conv)
qed

lemma splitSongIntoSections_empty:
  assumes "\<forall>c\<in>set lyr. isWhiteSpace c"
  shows "splitSongIntoSections lyr = []"
proof -
  have "trim p = []" if "p \<in> set (js_split match_blank_line None [] lyr)" for p
    using js_split_pieces_subset[OF that] assms by (auto simp: trim_eq_Nil_iff)
  then show ?thesis by (auto simp: splitSongIntoSections_eq filter_empty_conv)
qed

lemma sentences_trimmed: "s \<in> set (splitIntoSentences text) \<Longrightarrow> trimmed s"
  by (auto simp: splitIntoSentences_def trimmed_trim)

text \<open>
  C9.  The sentence splitter returns at least one sentence when the text has a code
  unit that is not white space, and none when the text is empty or all white space.
  Reading mode gives no chunk when there is no sentence, and song mode gives no chunk
  when there is no section, which is the case of empty or all-white-space lyrics.  All
  the functions are total: no branch of the source raises.
\<close>

theorem empty_input_totality:
  "((\<exists>c\<in>set text. \<not> isWhiteSpace c) \<longrightarrow> 1 \<le> length (splitIntoSentences text)) \<and>
   ((\<forall>c\<in>set text. isWhiteSpace c) \<longrightarrow> splitIntoSentences text = []) \<and>
   (splitIntoSentences text = [] \<longrightarrow> optimizeContentForWordCount text = []) \<and>
   (splitSongIntoSections lyr = [] \<longrightarrow> optimizeSongForWordCount lyr = []) \<and>
   ((\<forall>c\<in>set lyr. isWhiteSpace c) \<longrightarrow>
      splitSongIntoSections lyr = [] \<and> optimizeSongForWordCount lyr = [])"
proof (intro conjI impI)
  assume "\<exists>c\<in>set text. \<not> isWhiteSpace c"
  then have "splitIntoSentences text \<noteq> []" by (rule splitIntoSentences_nonempty)
  then show "1 \<le> length (splitIntoSentences text)" by (cases "splitIntoSentences text") simp_all
next
  assume "\<forall>c\<in>set text. isWhiteSpace c"
  then show "splitIntoSentences text = []" by (rule splitIntoSentences_empty)
next
  assume "splitIntoSentences text = []"
  then show "optimizeContentForWordCount text = []"
    by (simp add: optimizeContentForWordCount_def trim_Nil)
next
  assume "splitSongIntoSections lyr = []"
  then show "optimizeSongForWordCount lyr = []"
    by (simp add: optimizeSongForWordCount_def)
next
  assume a: "\<forall>c\<in>set lyr. isWhiteSpace c"
  then show "splitSongIntoSections lyr = []" by (rule splitSongIntoSections_empty)
  then show "optimizeSongForWordCount lyr = []" by (simp add: optimizeSongForWordCount_def)
qed

theorem empty_input_totality_witness:
  "(\<exists>c\<in>set (js ''Amen.''). \<not> isWhiteSpace c) \<and>
   1 \<le> length (splitIntoSentences (js ''Amen.'')) \<and>
   list_all isWhiteSpace (js ''  '' @ [nl]) \<and>
   splitIntoSentences (js ''  '' @ [nl]) = [] \<and>
   optimizeContentForWordCount (js ''  '' @ [nl]) = [] \<and>
   splitSongIntoSections (js ''  '' @ [nl]) = [] \<and>
   optimizeSongForWordCount (js ''  '' @ [nl]) = [] \<and>
   optimizeContentForWordCount [] = [] \<and>
   optimizeSongForWordCount [] = []"
proof -
  have a: "\<exists>c\<in>set (js ''Amen.''). \<not> isWhiteSpace c" by code_simp
  have b: "list_all isWhiteSpace (js ''  '' @ [nl])" by code_simp
  then have c: "\<forall>c\<in>set (js ''  '' @ [nl]). isWhiteSpace c" by (simp only: list_all_iff)
  show ?thesis
    using a b c empty_input_totality[of "js ''Amen.''" "js ''  '' @ [nl]"]
      empty_input_totality[of "js ''  '' @ [nl]" "js ''  '' @ [nl]"]
      empty_input_totality[of "[]" "[]"]
    by simp
qed

section \<open>Joining units\<close>

lemma join_with_Cons: "ps \<noteq> [] \<Longrightarrow> join_with sep (p # ps) = p @ sep # join_with sep ps"
  by (cases ps) simp_all

lemma join_with_append:
  "xs \<noteq> [] \<Longrightarrow> ys \<noteq> [] \<Longrightarrow>
     join_with sep (xs @ ys) = join_with sep xs @ sep # join_with sep ys"
proof (induction xs)
  case Nil
  then show ?case by simp
next
  case (Cons x xs)
  show ?case
  proof (cases "xs = []")
    case True
    with Cons.prems show ?thesis by (simp add: join_with_Cons)
  next
    case False
    with Cons show ?thesis by (simp add: join_with_Cons)
  qed
qed

lemma append_unit_Cons: "cur \<noteq> [] \<Longrightarrow> append_unit sep cur u = cur @ sep # u"
  by (simp add: append_unit_def)

lemma foldl_append_unit_nonempty:
  "cur \<noteq> [] \<Longrightarrow> foldl (append_unit sep) cur ps = join_with sep (cur # ps)"
proof (induction ps arbitrary: cur)
  case Nil
  then show ?case by simp
next
  case (Cons p ps)
  have "append_unit sep cur p \<noteq> []" using Cons.prems by (simp add: append_unit_def)
  then have "foldl (append_unit sep) (append_unit sep cur p) ps =
             join_with sep (append_unit sep cur p # ps)"
    by (rule Cons.IH)
  then show ?case using Cons.prems by (cases ps) (simp_all add: append_unit_Cons)
qed

lemma append_unit_Nil: "append_unit sep [] u = u"
  by (simp add: append_unit_def)

lemma foldl_append_unit_dropWhile:
  "isWhiteSpace sep \<Longrightarrow>
     dropWhile isWhiteSpace (foldl (append_unit sep) cur ps) =
     dropWhile isWhiteSpace (join_with sep (cur # ps))"
proof (induction ps arbitrary: cur)
  case Nil
  then show ?case by simp
next
  case (Cons p ps)
  show ?case
  proof (cases "cur = []")
    case False
    then have "foldl (append_unit sep) cur (p # ps) = join_with sep (cur # p # ps)"
      by (rule foldl_append_unit_nonempty)
    then show ?thesis by (simp only:)
  next
    case True
    have "dropWhile isWhiteSpace (foldl (append_unit sep) p ps) =
          dropWhile isWhiteSpace (join_with sep (p # ps))"
      using Cons.prems by (rule Cons.IH)
    then show ?thesis using True Cons.prems by (simp add: append_unit_Nil)
  qed
qed

lemma trim_cong_left:
  "dropWhile isWhiteSpace a = dropWhile isWhiteSpace b \<Longrightarrow> trim a = trim b"
  by (simp add: trim_def)

lemma trim_foldl_append_unit:
  assumes "isWhiteSpace sep"
  shows "trim (foldl (append_unit sep) [] g) = trim (join_with sep g)"
proof -
  have "dropWhile isWhiteSpace (join_with sep ([] # g)) =
        dropWhile isWhiteSpace (join_with sep g)"
    using assms by (cases g) simp_all
  then have "dropWhile isWhiteSpace (foldl (append_unit sep) [] g) =
             dropWhile isWhiteSpace (join_with sep g)"
    using foldl_append_unit_dropWhile[OF assms, of "[]" g] by simp
  then show ?thesis by (rule trim_cong_left)
qed

lemma trimmed_join_with:
  "g \<noteq> [] \<Longrightarrow> \<forall>u\<in>set g. trimmed u \<Longrightarrow> trimmed (join_with sep g)"
proof (induction g)
  case Nil
  then show ?case by simp
next
  case (Cons u g)
  show ?case
  proof (cases "g = []")
    case True
    with Cons.prems show ?thesis by simp
  next
    case False
    with Cons have "trimmed (join_with sep g)" "trimmed u" by simp_all
    then have "trimmed (u @ sep # join_with sep g)" by (intro trimmed_sep)
    with False show ?thesis by (simp add: join_with_Cons)
  qed
qed

lemma js_split_nonempty: "js_split m prev cur s \<noteq> []"
  by (induction m prev cur s rule: js_split.induct) (auto split: option.splits nat.splits)

lemma join_split_nl: "join_with nl (js_split match_nl prev cur s) = rev cur @ s"
proof (induction s arbitrary: prev cur)
  case Nil
  then show ?case by simp
next
  case (Cons c cs)
  show ?case
  proof (cases "c = nl")
    case True
    then have "js_split match_nl prev cur (c # cs) =
               rev cur # js_split match_nl (Some c) [] cs"
      by (simp add: match_nl_def)
    then show ?thesis
      using Cons.IH[of "Some c" "[]"] True js_split_nonempty[of match_nl "Some c" "[]" cs]
      by (simp add: join_with_Cons)
  next
    case False
    then have "js_split match_nl prev cur (c # cs) = js_split match_nl (Some c) (c # cur) cs"
      by (simp add: match_nl_def)
    then show ?thesis using Cons.IH[of "Some c" "c # cur"] by simp
  qed
qed

section \<open>Single units\<close>

lemma append_unit_join:
  assumes "\<forall>u\<in>set g. trimmed u" "trimmed s"
  shows "append_unit sp (join_with sp g) s = join_with sp (g @ [s])"
proof (cases "g = []")
  case True
  then show ?thesis by (simp add: append_unit_Nil)
next
  case False
  then have "join_with sp g \<noteq> []"
    using assms(1) trimmed_join_with[of g sp] by (auto simp: trimmed_def)
  then show ?thesis using False by (simp add: append_unit_Cons join_with_append)
qed

lemma reading_single_sentence:
  assumes "splitIntoSentences text = [s]"
  shows "optimizeContentForWordCount text = [\<lparr>content = s, wordCount = countWords s\<rparr>]"
proof -
  have "trimmed s" using assms sentences_trimmed[of s "text"] by simp
  then have "trim s = s" "s \<noteq> []" by (simp_all add: trim_trimmed trimmed_nonempty)
  then show ?thesis
    by (simp add: optimizeContentForWordCount_def assms pack_sentences_append append_unit_Nil)
qed

lemma split_nl_single: "nl \<notin> set s \<Longrightarrow> js_split match_nl prev cur s = [rev cur @ s]"
  by (induction s arbitrary: prev cur) (auto simp: match_nl_def)

lemma song_single_line:
  assumes "splitSongIntoSections lyr = [(c, t)]" "nl \<notin> set c"
  shows "optimizeSongForWordCount lyr = [\<lparr>content = c, wordCount = countWords c, type = t\<rparr>]"
proof -
  have "trimmed c" using assms(1) sections_trimmed[of "(c, t)" lyr] by simp
  then have "trim c = c" "c \<noteq> []" by (simp_all add: trim_trimmed trimmed_nonempty)
  then show ?thesis
    using assms(2)
    by (simp add: optimizeSongForWordCount_def assms(1) optimizeSection_def Let_def
        split_nl_single pack_lines_append append_unit_Nil)
qed

section \<open>Sentences of the examples\<close>

lemma js_dot: "js ''.'' = [0x2E]"
  by (simp add: js_def)

lemma isTerminal_dot: "isTerminal 0x2E"
  by (simp add: isTerminal_def)

lemma not_isWhiteSpace_dot: "\<not> isWhiteSpace 0x2E"
  by (simp add: isWhiteSpace_def)

lemma not_isTerminal_sp: "\<not> isTerminal sp"
  by (simp add: isTerminal_def sp_def)

lemma sentence_of_Suc:
  "sentence_of (Suc (Suc n)) w = w @ sp # sentence_of (Suc n) w"
  by (simp add: sentence_of_def)

lemma sentence_of_1: "sentence_of (Suc 0) w = w @ [0x2E]"
  by (simp add: sentence_of_def js_dot)

lemma word_starts_word:
  "w \<noteq> [] \<Longrightarrow> \<forall>c\<in>set w. \<not> isWhiteSpace c \<Longrightarrow>
     word_starts b (w @ rest) = (if b then 0 else 1) + word_starts True rest"
proof (induction w arbitrary: b)
  case Nil
  then show ?case by simp
next
  case (Cons c w)
  then show ?case by (cases "w = []") auto
qed

lemma countWords_sentence_of:
  assumes "w \<noteq> []" "\<forall>c\<in>set w. \<not> isWhiteSpace c"
  shows "countWords (sentence_of (Suc n) w) = Suc n"
proof -
  have "word_starts False (sentence_of (Suc n) w) = Suc n"
  proof (induction n)
    case 0
    show ?case
      using word_starts_word[OF assms, of False "[0x2E]"]
      by (simp add: sentence_of_1 not_isWhiteSpace_dot)
  next
    case (Suc n)
    show ?case
      using word_starts_word[OF assms, of False "sp # sentence_of (Suc n) w"] Suc
      by (simp add: sentence_of_Suc isWhiteSpace_sp)
  qed
  then show ?thesis by (simp add: countWords_word_starts)
qed

lemma sentence_of_body:
  "sentence_of n w = join_with sp (replicate n w) @ [0x2E]"
  by (simp add: sentence_of_def js_dot)

lemma set_join_replicate: "set (join_with sep (replicate n w)) \<subseteq> set w \<union> {sep}"
proof (induction n)
  case 0
  then show ?case by simp
next
  case (Suc n)
  then show ?case by (cases n) auto
qed

lemma hd_join_replicate: "w \<noteq> [] \<Longrightarrow> hd (join_with sep (replicate (Suc n) w)) = hd w"
  by (cases n) simp_all

lemma join_replicate_nonempty: "w \<noteq> [] \<Longrightarrow> join_with sep (replicate (Suc n) w) \<noteq> []"
  by (cases n) simp_all

lemma trimmed_sentence_of:
  assumes "w \<noteq> []" "\<forall>c\<in>set w. \<not> isWhiteSpace c"
  shows "trimmed (sentence_of (Suc n) w)"
proof -
  let ?b = "join_with sp (replicate (Suc n) w)"
  have b: "?b \<noteq> []" using assms(1) by (rule join_replicate_nonempty)
  then have "hd (?b @ [0x2E]) = hd ?b" by (rule hd_append2)
  also have "\<dots> = hd w" using assms(1) by (rule hd_join_replicate)
  finally have "hd (sentence_of (Suc n) w) = hd w" by (simp only: sentence_of_body)
  moreover have "hd w \<in> set w" using assms(1) by simp
  moreover have "last (sentence_of (Suc n) w) = 0x2E" by (simp only: sentence_of_body last_snoc)
  moreover have "sentence_of (Suc n) w \<noteq> []" by (simp only: sentence_of_body) simp
  ultimately show ?thesis
    using assms(2) by (simp add: trimmed_def not_isWhiteSpace_dot)
qed

text \<open>
  A text made of sentences that have no terminal before their last code unit and do not
  start with white space, separated by single spaces, is split into these sentences.
\<close>

lemma split_body:
  assumes "\<forall>c\<in>set b. \<not> isTerminal c"
    and "(\<forall>p. prev = Some p \<longrightarrow> \<not> isTerminal p) \<or> (b \<noteq> [] \<and> \<not> isWhiteSpace (hd b))"
  shows "js_split match_after_terminal prev cur (b @ rest) =
         js_split match_after_terminal (if b = [] then prev else Some (last b)) (rev b @ cur) rest"
  using assms
proof (induction b arbitrary: prev cur)
  case Nil
  then show ?case by simp
next
  case (Cons c b)
  have "match_after_terminal prev (c # b @ rest) = None"
    using Cons.prems(2)
    by (auto simp: match_after_terminal_def match_ws_def split: option.splits)
  then have "js_split match_after_terminal prev cur ((c # b) @ rest) =
             js_split match_after_terminal (Some c) (c # cur) (b @ rest)"
    by simp
  also have "\<dots> = js_split match_after_terminal (if b = [] then Some c else Some (last b))
                     (rev b @ c # cur) rest"
    using Cons.prems(1) by (intro Cons.IH) auto
  finally show ?case by simp
qed

lemma split_sentence_end:
  assumes "\<not> isTerminal q" "\<not> isWhiteSpace x"
  shows "js_split match_after_terminal (Some q) cur (0x2E # sp # x # rest) =
         rev (0x2E # cur) # js_split match_after_terminal (Some sp) [] (x # rest)"
  using assms
  by (simp add: match_after_terminal_def match_ws_def isTerminal_dot isWhiteSpace_sp)

lemma split_sentence_last:
  "js_split match_after_terminal (Some q) cur [0x2E] = [rev (0x2E # cur)]"
  by (simp add: match_after_terminal_def match_ws_def not_isWhiteSpace_dot)

lemma split_sentences_of:
  assumes "\<forall>(n, w)\<in>set specs. 0 < n \<and> w \<noteq> [] \<and> (\<forall>c\<in>set w. \<not> isWhiteSpace c \<and> \<not> isTerminal c)"
    and "specs \<noteq> []" and "\<forall>p. prev = Some p \<longrightarrow> \<not> isTerminal p"
  shows "js_split match_after_terminal prev []
           (join_with sp (map (\<lambda>(n, w). sentence_of n w) specs)) =
         map (\<lambda>(n, w). sentence_of n w) specs"
  using assms
proof (induction specs arbitrary: prev)
  case Nil
  then show ?case by simp
next
  case (Cons a specs)
  obtain n w where a: "a = (Suc n, w)" using Cons.prems(1) by (cases a; cases "fst a") auto
  let ?b = "join_with sp (replicate (Suc n) w)"
  from Cons.prems(1) a have w: "w \<noteq> []" "\<forall>c\<in>set w. \<not> isWhiteSpace c \<and> \<not> isTerminal c"
    by auto
  have b: "?b \<noteq> []" using w(1) by (rule join_replicate_nonempty)
  have bt: "\<forall>c\<in>set ?b. \<not> isTerminal c"
    using set_join_replicate[of sp "Suc n" w] w(2) not_isTerminal_sp by blast
  then have lt: "\<not> isTerminal (last ?b)" using b last_in_set by blast
  have body: "js_split match_after_terminal prev [] (?b @ rest) =
              js_split match_after_terminal (Some (last ?b)) (rev ?b) rest" for rest
    using split_body[OF bt, of prev "[]" rest] Cons.prems(3) b by simp
  show ?case
  proof (cases "specs = []")
    case True
    have "js_split match_after_terminal prev [] (sentence_of (Suc n) w) =
          js_split match_after_terminal (Some (last ?b)) (rev ?b) [0x2E]"
      by (simp only: sentence_of_body body)
    also have "\<dots> = [rev (0x2E # rev ?b)]" by (rule split_sentence_last)
    also have "\<dots> = [sentence_of (Suc n) w]" by (simp only: sentence_of_body) simp
    finally show ?thesis using True a by simp
  next
    case False
    then obtain a' specs' where sp': "specs = a' # specs'" by (cases specs) auto
    obtain n' w' where a': "a' = (Suc n', w')"
      using Cons.prems(1) sp' by (cases a'; cases "fst a'") auto
    let ?next = "join_with sp (map (\<lambda>(n, w). sentence_of n w) specs)"
    have "w' \<noteq> []" "\<forall>c\<in>set w'. \<not> isWhiteSpace c"
      using Cons.prems(1) sp' a' by auto
    then have "trimmed (sentence_of (Suc n') w')" by (rule trimmed_sentence_of)
    then obtain x r where x: "sentence_of (Suc n') w' = x # r" "\<not> isWhiteSpace x"
      by (cases "sentence_of (Suc n') w'") (auto simp: trimmed_def)
    then obtain r' where nx: "?next = x # r'"
      using sp' a' by (cases specs') (auto simp: join_with_Cons simp del: replicate.simps)
    have IH: "js_split match_after_terminal (Some sp) [] ?next =
              map (\<lambda>(n, w). sentence_of n w) specs"
      using Cons.prems(1) False not_isTerminal_sp by (intro Cons.IH) auto
    have "join_with sp (map (\<lambda>(n, w). sentence_of n w) (a # specs)) =
          ?b @ 0x2E # sp # ?next"
      using False a by (simp add: join_with_Cons sentence_of_body del: replicate.simps)
    then have "js_split match_after_terminal prev []
                 (join_with sp (map (\<lambda>(n, w). sentence_of n w) (a # specs))) =
               js_split match_after_terminal (Some (last ?b)) (rev ?b) (0x2E # sp # x # r')"
      using body[of "0x2E # sp # ?next"] nx by simp
    also have "\<dots> = rev (0x2E # rev ?b) #
                     js_split match_after_terminal (Some sp) [] (x # r')"
      using lt x(2) by (rule split_sentence_end)
    finally show ?thesis
      using IH nx a by (simp add: sentence_of_body del: replicate.simps)
  qed
qed

lemma splitIntoSentences_of:
  assumes "\<forall>(n, w)\<in>set specs. 0 < n \<and> w \<noteq> [] \<and> (\<forall>c\<in>set w. \<not> isWhiteSpace c \<and> \<not> isTerminal c)"
    and "specs \<noteq> []"
  shows "splitIntoSentences (join_with sp (map (\<lambda>(n, w). sentence_of n w) specs)) =
         map (\<lambda>(n, w). sentence_of n w) specs"
proof -
  have t: "trimmed s" if "s \<in> set (map (\<lambda>(n, w). sentence_of n w) specs)" for s
  proof -
    from that obtain n w where nw: "(n, w) \<in> set specs" "s = sentence_of n w" by auto
    with assms(1) obtain k where "n = Suc k" by (cases n) auto
    with nw assms(1) show ?thesis by (auto intro!: trimmed_sentence_of)
  qed
  have f: "filter (\<lambda>s. 0 < length s) (map (\<lambda>s. trim s) ss) = ss"
    if "\<forall>s\<in>set ss. trimmed s" for ss
    using that by (induction ss) (simp_all add: trim_trimmed trimmed_nonempty)
  have "js_split match_after_terminal None []
          (join_with sp (map (\<lambda>(n, w). sentence_of n w) specs)) =
        map (\<lambda>(n, w). sentence_of n w) specs"
    by (rule split_sentences_of[OF assms]) simp
  then show ?thesis
    using f[of "map (\<lambda>(n, w). sentence_of n w) specs"] t
    by (simp only: splitIntoSentences_def) blast
qed

lemma plain_mot:
  "js ''mot'' \<noteq> []" "\<forall>c\<in>set (js ''mot''). \<not> isWhiteSpace c \<and> \<not> isTerminal c"
  by (simp_all add: js_def isWhiteSpace_def isTerminal_def)

lemma plain_mot_ws: "\<forall>c\<in>set (js ''mot''). \<not> isWhiteSpace c"
  using plain_mot(2) by blast

text \<open>
  C7.  When the text is split into five sentences of 20 words each, the greedy packing
  gives a chunk of 80 words holding the first four sentences and a chunk of 20 words
  holding the fifth, and the merge pass leaves them as they are (together they would
  have 100 words, more than \<open>MAX\<close>): the result has exactly these two chunks, with
  word counts 80 and 20.
\<close>

theorem five_sentences_of_twenty_words:
  assumes "splitIntoSentences text = [s1, s2, s3, s4, s5]"
    and "\<forall>s\<in>set [s1, s2, s3, s4, s5]. countWords s = 20"
  shows "pack_sentences (splitIntoSentences text) [] [] 0 =
           [\<lparr>content = s1 @ [sp] @ s2 @ [sp] @ s3 @ [sp] @ s4, wordCount = 80\<rparr>,
            \<lparr>content = s5, wordCount = 20\<rparr>] \<and>
         optimizeContentForWordCount text =
           [\<lparr>content = s1 @ [sp] @ s2 @ [sp] @ s3 @ [sp] @ s4, wordCount = 80\<rparr>,
            \<lparr>content = s5, wordCount = 20\<rparr>] \<and>
         map wordCount (optimizeContentForWordCount text) = [80, 20] \<and>
         MAX_WORDS_PER_SLIDE < 80 + 20"
proof -
  have t: "trimmed s1" "trimmed s2" "trimmed s3" "trimmed s4" "trimmed s5"
    using sentences_trimmed[of _ "text"] assms(1) by simp_all
  then have ne: "s1 \<noteq> []" "s5 \<noteq> []" by (simp_all add: trimmed_nonempty)
  have "trimmed (s1 @ sp # s2 @ sp # s3 @ sp # s4)"
    using t by (intro trimmed_sep)
  then have j: "trim (s1 @ sp # s2 @ sp # s3 @ sp # s4) = s1 @ sp # s2 @ sp # s3 @ sp # s4"
    by (rule trim_trimmed)
  have j5: "trim s5 = s5" using t(5) by (rule trim_trimmed)
  have c: "countWords s1 = 20" "countWords s2 = 20" "countWords s3 = 20"
      "countWords s4 = 20" "countWords s5 = 20"
    using assms(2) by simp_all
  have p: "pack_sentences [s1, s2, s3, s4, s5] [] [] 0 =
           [\<lparr>content = s1 @ [sp] @ s2 @ [sp] @ s3 @ [sp] @ s4, wordCount = 80\<rparr>,
            \<lparr>content = s5, wordCount = 20\<rparr>]"
    using ne
    by (simp add: pack_sentences_append pack_sentences_close c j j5 append_unit_def
        MAX_WORDS_PER_SLIDE_def MIN_WORDS_PER_SLIDE_def)
  then show ?thesis
    by (simp add: optimizeContentForWordCount_def assms(1)
        MAX_WORDS_PER_SLIDE_def MIN_WORDS_PER_SLIDE_def)
qed

theorem five_sentences_of_twenty_words_witness:
  "splitIntoSentences (join_with sp (replicate 5 (sentence_of 20 (js ''mot'')))) =
     replicate 5 (sentence_of 20 (js ''mot'')) \<and>
   countWords (sentence_of 20 (js ''mot'')) = 20 \<and>
   map wordCount
     (optimizeContentForWordCount (join_with sp (replicate 5 (sentence_of 20 (js ''mot''))))) =
     [80, 20]"
proof -
  let ?s = "sentence_of 20 (js ''mot'')"
  have r: "replicate 5 x = [x, x, x, x, x]" for x :: "'a"
    by (simp add: numeral_eq_Suc)
  have "splitIntoSentences
          (join_with sp (map (\<lambda>(n, w). sentence_of n w) (replicate 5 (20, js ''mot'')))) =
        map (\<lambda>(n, w). sentence_of n w) (replicate 5 (20, js ''mot''))"
    using plain_mot by (intro splitIntoSentences_of) simp_all
  then have a: "splitIntoSentences (join_with sp (replicate 5 ?s)) = [?s, ?s, ?s, ?s, ?s]"
    by (simp add: r)
  have b: "countWords ?s = 20"
    using countWords_sentence_of[OF plain_mot(1) plain_mot_ws, of 19] by simp
  from five_sentences_of_twenty_words[OF a] b show ?thesis
    using a by (simp add: r)
qed

lemma nl_notin_sentence_of:
  assumes "\<forall>c\<in>set w. \<not> isWhiteSpace c"
  shows "nl \<notin> set (sentence_of n w)"
proof
  assume "nl \<in> set (sentence_of n w)"
  then have "nl \<in> set w \<union> {sp} \<or> nl = 0x2E"
    using set_join_replicate[of sp n w] by (auto simp: sentence_of_body)
  then show False using assms isWhiteSpace_nl by (auto simp: nl_def sp_def)
qed

lemma split_blank_no_nl:
  "nl \<notin> set a \<Longrightarrow>
     js_split match_blank_line prev cur (a @ rest) =
     js_split match_blank_line (if a = [] then prev else Some (last a)) (rev a @ cur) rest"
proof (induction a arbitrary: prev cur)
  case Nil
  then show ?case by simp
next
  case (Cons c a)
  then have "match_blank_line prev (c # a @ rest) = None"
    by (auto simp: match_blank_line_def)
  then have "js_split match_blank_line prev cur ((c # a) @ rest) =
             js_split match_blank_line (Some c) (c # cur) (a @ rest)"
    by simp
  also have "\<dots> = js_split match_blank_line (if a = [] then Some c else Some (last a))
                     (rev a @ c # cur) rest"
    using Cons.prems by (intro Cons.IH) simp
  finally show ?case by simp
qed

lemma split_blank_single:
  "nl \<notin> set s \<Longrightarrow> js_split match_blank_line prev cur s = [rev cur @ s]"
  using split_blank_no_nl[of s prev cur "[]"] by simp

lemma not_js_includes: "c \<notin> set s \<Longrightarrow> \<not> js_includes s (c # p)"
  by (induction s) (auto simp: startsWith_def)

lemma set_sentence_of: "set (sentence_of n w) \<subseteq> set w \<union> {sp, 0x2E}"
  using set_join_replicate[of sp n w] by (auto simp: sentence_of_body)

lemma not_startsWith: "c \<notin> set s \<Longrightarrow> \<not> startsWith s (c # p)"
  by (cases s) (auto simp: startsWith_def)

lemma set_toLowerCase:
  "x \<in> set (toLowerCase s) \<Longrightarrow>
     \<exists>c\<in>set s. x = (if 0x41 \<le> c \<and> c \<le> 0x5A then c + 0x20 else c)"
  by (auto simp: toLowerCase_def)

lemma match_leading_number_None:
  "s \<noteq> [] \<Longrightarrow> \<not> isDigit (hd s) \<Longrightarrow> match_leading_number s = None"
  by (cases s) (simp_all add: match_leading_number_def)

lemma js_R: "js ''R/'' = [0x52, 0x2F]"
  by (simp add: js_def)

lemma js_refrain: "js ''refrain'' = [0x72, 0x65, 0x66, 0x72, 0x61, 0x69, 0x6E]"
  by (simp add: js_def)

lemma section_type_Verse:
  assumes "\<forall>c\<in>set s. c \<noteq> 0x52 \<and> c \<noteq> 0x72" "s \<noteq> []" "\<not> isDigit (hd s)"
  shows "section_type_of s = Verse"
proof -
  have 1: "\<not> startsWith s (js ''R/'')"
    using assms(1) by (simp only: js_R) (rule not_startsWith, blast)
  have "0x72 \<notin> set (toLowerCase s)"
  proof
    assume "0x72 \<in> set (toLowerCase s)"
    then obtain c where c: "c \<in> set s"
        "0x72 = (if 0x41 \<le> c \<and> c \<le> 0x5A then c + 0x20 else c)"
      using set_toLowerCase by blast
    then have "c = 0x52 \<or> c = 0x72" by (auto split: if_splits)
    with c(1) assms(1) show False by blast
  qed
  then have 2: "\<not> js_includes (toLowerCase s) (js ''refrain'')"
    by (simp only: js_refrain) (rule not_js_includes)
  show ?thesis
    using 1 2 match_leading_number_None[OF assms(2,3)] by (simp add: section_type_of_def)
qed

lemma hd_sentence_of: "w \<noteq> [] \<Longrightarrow> hd (sentence_of (Suc n) w) = hd w"
proof -
  assume w: "w \<noteq> []"
  let ?b = "join_with sp (replicate (Suc n) w)"
  have "?b \<noteq> []" using w by (rule join_replicate_nonempty)
  then have "hd (?b @ [0x2E]) = hd ?b" by (rule hd_append2)
  also have "\<dots> = hd w" using w by (rule hd_join_replicate)
  finally show ?thesis by (simp only: sentence_of_body)
qed

lemma sections_of_block:
  assumes "js_split match_blank_line None [] s = [s]" "trimmed s"
    and "\<forall>c\<in>set s. c \<noteq> 0x52 \<and> c \<noteq> 0x72" "\<not> isDigit (hd s)"
  shows "splitSongIntoSections s = [(s, Verse)]"
proof -
  have "trim s = s" "s \<noteq> []" using assms(2) by (simp_all add: trim_trimmed trimmed_nonempty)
  moreover have "section_type_of s = Verse"
    using assms(3) \<open>s \<noteq> []\<close> assms(4) by (rule section_type_Verse)
  ultimately show ?thesis by (simp add: splitSongIntoSections_eq assms(1))
qed

lemma mot_chars: "\<forall>c\<in>set (js ''mot'') \<union> {sp, 0x2E, nl}. c \<noteq> 0x52 \<and> c \<noteq> 0x72"
  by (simp add: js_def sp_def nl_def)

lemma mot_hd: "\<not> isDigit (hd (js ''mot''))"
  by (simp add: js_def isDigit_def)

section \<open>The merge pass\<close>

lemma mergeSmallChunks_tagged_fst:
  "map fst (mergeSmallChunks_tagged cs) = mergeSmallChunks cs"
  by (induction cs rule: mergeSmallChunks.induct) (simp_all add: Let_def)

lemma mergeSmallChunks_tagged_head:
  "mergeSmallChunks_tagged (c # cs) = (x, m) # out \<Longrightarrow> m \<or> x = c"
  by (cases cs) (auto simp: Let_def split: if_splits)

lemma mergeSmallChunks_tagged_nonempty: "mergeSmallChunks_tagged (c # cs) \<noteq> []"
  by (cases cs) (simp_all add: Let_def)

lemma zip_tl_Cons: "zip (x # xs) (tl (x # xs)) = (case xs of [] \<Rightarrow> [] | y # ys \<Rightarrow> (x, y) # zip xs (tl xs))"
  by (cases xs) simp_all

lemma mergeSmallChunks_locally_maximal:
  "((x, mx), (y, my)) \<in> set (zip (mergeSmallChunks_tagged cs) (tl (mergeSmallChunks_tagged cs)))
   \<Longrightarrow> \<not> mx \<Longrightarrow> \<not> my \<Longrightarrow>
   \<not> (wordCount x < MIN_WORDS_PER_SLIDE \<and> wordCount x + wordCount y \<le> MAX_WORDS_PER_SLIDE)"
proof (induction cs rule: mergeSmallChunks.induct)
  case 1
  then show ?case by simp
next
  case (2 c)
  then show ?case by simp
next
  case (3 a b cs)
  let ?merge = "wordCount a < MIN_WORDS_PER_SLIDE \<and>
                wordCount a + wordCount b \<le> MAX_WORDS_PER_SLIDE"
  show ?case
  proof (cases ?merge)
    case True
    let ?m = "\<lparr>content = content a @ [sp] @ content b, wordCount = wordCount a + wordCount b\<rparr>"
    have out: "mergeSmallChunks_tagged (a # b # cs) = (?m, True) # mergeSmallChunks_tagged cs"
      using True by (simp add: Let_def)
    from 3(3) have "((x, mx), (y, my)) \<in> set (zip (mergeSmallChunks_tagged cs)
                       (tl (mergeSmallChunks_tagged cs)))"
      using 3(4) unfolding out zip_tl_Cons by (auto split: list.splits)
    then show ?thesis using 3(1)[OF refl True] 3(4,5) by simp
  next
    case False
    have out: "mergeSmallChunks_tagged (a # b # cs) =
               (a, False) # mergeSmallChunks_tagged (b # cs)"
      using False by (simp add: Let_def)
    obtain h hs where h: "mergeSmallChunks_tagged (b # cs) = h # hs"
      using mergeSmallChunks_tagged_nonempty[of b cs]
      by (cases "mergeSmallChunks_tagged (b # cs)") simp_all
    from 3(3) have "((x, mx), (y, my)) = ((a, False), h) \<or>
        ((x, mx), (y, my)) \<in> set (zip (mergeSmallChunks_tagged (b # cs))
                                   (tl (mergeSmallChunks_tagged (b # cs))))"
      unfolding out zip_tl_Cons h by auto
    then show ?thesis
    proof
      assume e: "((x, mx), (y, my)) = ((a, False), h)"
      then have "mergeSmallChunks_tagged (b # cs) = (y, my) # hs" using h by simp
      then have "my \<or> y = b" by (rule mergeSmallChunks_tagged_head)
      with 3(5) e False show ?thesis by auto
    next
      assume "((x, mx), (y, my)) \<in> set (zip (mergeSmallChunks_tagged (b # cs))
                                   (tl (mergeSmallChunks_tagged (b # cs))))"
      then show ?thesis using 3(2)[OF refl False] 3(4,5) by simp
    qed
  qed
qed

lemma song_two_sections:
  "optimizeSongForWordCount (js ''a'' @ [nl, nl] @ js ''b'') =
     [\<lparr>content = js ''a'', wordCount = 1, type = Verse\<rparr>,
      \<lparr>content = js ''b'', wordCount = 1, type = Verse\<rparr>]"
  by code_simp

text \<open>
  C6.  The merge pass merges a chunk with the next one exactly when the chunk has fewer
  than \<open>MIN\<close> words, is not the last one, and the two together have at most \<open>MAX\<close>
  words; the merged chunk joins the contents with one space and adds the word counts,
  and the pass goes on after the pair, so that a merged chunk is not looked at again
  (three chunks of 30 words give 60 and 30).  In the result, two adjacent chunks that
  were both kept as they were never have both fewer than \<open>MIN\<close> words and together at
  most \<open>MAX\<close>.  Reading mode applies the pass to the packed chunks; song mode returns
  the packed chunks of its sections one after the other, without the pass, so two
  one-word sections stay two chunks.
\<close>

theorem merge_pass:
  "(wordCount a < MIN_WORDS_PER_SLIDE \<and> wordCount a + wordCount b \<le> MAX_WORDS_PER_SLIDE \<longrightarrow>
      mergeSmallChunks (a # b # cs) =
        \<lparr>content = content a @ [sp] @ content b, wordCount = wordCount a + wordCount b\<rparr> #
        mergeSmallChunks cs) \<and>
   (\<not> (wordCount a < MIN_WORDS_PER_SLIDE \<and>
        wordCount a + wordCount b \<le> MAX_WORDS_PER_SLIDE) \<longrightarrow>
      mergeSmallChunks (a # b # cs) = a # mergeSmallChunks (b # cs)) \<and>
   mergeSmallChunks [a] = [a] \<and>
   mergeSmallChunks [\<lparr>content = x, wordCount = 30\<rparr>, \<lparr>content = y, wordCount = 30\<rparr>,
                     \<lparr>content = z, wordCount = 30\<rparr>] =
     [\<lparr>content = x @ [sp] @ y, wordCount = 60\<rparr>, \<lparr>content = z, wordCount = 30\<rparr>] \<and>
   map fst (mergeSmallChunks_tagged chunks) = mergeSmallChunks chunks \<and>
   (\<forall>((p, mp), (q, mq)) \<in> set (zip (mergeSmallChunks_tagged chunks)
                                   (tl (mergeSmallChunks_tagged chunks))).
      \<not> mp \<and> \<not> mq \<longrightarrow>
      \<not> (wordCount p < MIN_WORDS_PER_SLIDE \<and> wordCount q < MIN_WORDS_PER_SLIDE \<and>
         wordCount p + wordCount q \<le> MAX_WORDS_PER_SLIDE)) \<and>
   optimizeContentForWordCount text =
     mergeSmallChunks (pack_sentences (splitIntoSentences text) [] [] 0) \<and>
   optimizeSongForWordCount lyr =
     concat (map (optimizeSection []) (splitSongIntoSections lyr)) \<and>
   optimizeSongForWordCount (js ''a'' @ [nl, nl] @ js ''b'') =
     [\<lparr>content = js ''a'', wordCount = 1, type = Verse\<rparr>,
      \<lparr>content = js ''b'', wordCount = 1, type = Verse\<rparr>]"
proof (intro conjI)
  show "\<forall>((p, mp), (q, mq)) \<in> set (zip (mergeSmallChunks_tagged chunks)
                                   (tl (mergeSmallChunks_tagged chunks))).
      \<not> mp \<and> \<not> mq \<longrightarrow>
      \<not> (wordCount p < MIN_WORDS_PER_SLIDE \<and> wordCount q < MIN_WORDS_PER_SLIDE \<and>
         wordCount p + wordCount q \<le> MAX_WORDS_PER_SLIDE)"
    using mergeSmallChunks_locally_maximal[of _ _ _ _ chunks] by fastforce
  show "optimizeSongForWordCount lyr =
     concat (map (optimizeSection []) (splitSongIntoSections lyr))"
    by (rule optimizeSong_concat)
  show "optimizeSongForWordCount (js ''a'' @ [nl, nl] @ js ''b'') =
     [\<lparr>content = js ''a'', wordCount = 1, type = Verse\<rparr>,
      \<lparr>content = js ''b'', wordCount = 1, type = Verse\<rparr>]"
    by (rule song_two_sections)
qed (simp_all add: Let_def mergeSmallChunks_tagged_fst optimizeContentForWordCount_def
      MIN_WORDS_PER_SLIDE_def MAX_WORDS_PER_SLIDE_def)

theorem merge_pass_witness:
  "mergeSmallChunks [\<lparr>content = js ''un'', wordCount = 30\<rparr>,
                     \<lparr>content = js ''deux'', wordCount = 40\<rparr>] =
     [\<lparr>content = js ''un'' @ [sp] @ js ''deux'', wordCount = 70\<rparr>] \<and>
   mergeSmallChunks [\<lparr>content = js ''un'', wordCount = 50\<rparr>,
                     \<lparr>content = js ''deux'', wordCount = 50\<rparr>] =
     [\<lparr>content = js ''un'', wordCount = 50\<rparr>, \<lparr>content = js ''deux'', wordCount = 50\<rparr>] \<and>
   ((\<lparr>content = js ''un'', wordCount = 50\<rparr>, False),
    (\<lparr>content = js ''deux'', wordCount = 50\<rparr>, False)) \<in>
     set (zip (mergeSmallChunks_tagged [\<lparr>content = js ''un'', wordCount = 50\<rparr>,
                                         \<lparr>content = js ''deux'', wordCount = 50\<rparr>])
              (tl (mergeSmallChunks_tagged [\<lparr>content = js ''un'', wordCount = 50\<rparr>,
                                             \<lparr>content = js ''deux'', wordCount = 50\<rparr>]))) \<and>
   \<not> ((50::nat) < MIN_WORDS_PER_SLIDE \<and> (50::nat) < MIN_WORDS_PER_SLIDE \<and>
      (50::nat) + 50 \<le> MAX_WORDS_PER_SLIDE)"
proof -
  let ?a = "\<lparr>content = js ''un'', wordCount = 30\<rparr>"
  let ?b = "\<lparr>content = js ''deux'', wordCount = 40\<rparr>"
  let ?c = "\<lparr>content = js ''un'', wordCount = 50\<rparr>"
  let ?d = "\<lparr>content = js ''deux'', wordCount = 50\<rparr>"
  have m: "((?c, False), (?d, False)) \<in>
     set (zip (mergeSmallChunks_tagged [?c, ?d]) (tl (mergeSmallChunks_tagged [?c, ?d])))"
    by (simp add: Let_def MIN_WORDS_PER_SLIDE_def MAX_WORDS_PER_SLIDE_def)
  from merge_pass[of ?a ?b "[]" "[]" "[]" "[]" "[?c, ?d]" "[]" "[]"]
    merge_pass[of ?c ?d "[]" "[]" "[]" "[]" "[?c, ?d]" "[]" "[]"] m
  show ?thesis
    by (simp add: MIN_WORDS_PER_SLIDE_def MAX_WORDS_PER_SLIDE_def)
qed

section \<open>Song mode and the packer of the specification\<close>

declare spec_greedy_pack.simps(2) [simp del]

lemma spec_pack_append:
  assumes "\<not> (MAX_WORDS_PER_SLIDE < cw + countWords u \<and> 0 < cw)"
  shows "spec_greedy_pack ex sep (u # us) cur cw =
         spec_greedy_pack ex sep us (append_unit sep cur u) (cw + countWords u)"
  using assms by (auto simp: spec_greedy_pack.simps(2) Let_def)

lemma spec_pack_close:
  assumes "MAX_WORDS_PER_SLIDE < cw + countWords u" "0 < cw"
    and "\<not> (ex \<and> cw < MIN_WORDS_PER_SLIDE \<and> countWords u \<le> 15)"
  shows "spec_greedy_pack ex sep (u # us) cur cw =
         \<lparr>content = trim cur, wordCount = cw\<rparr> # spec_greedy_pack ex sep us u (countWords u)"
  using assms by (auto simp: spec_greedy_pack.simps(2) Let_def)

lemma spec_pack_force:
  assumes "MAX_WORDS_PER_SLIDE < cw + countWords u" "0 < cw"
    and "ex" "cw < MIN_WORDS_PER_SLIDE" "countWords u \<le> 15"
  shows "spec_greedy_pack ex sep (u # us) cur cw =
         \<lparr>content = trim (append_unit sep cur u), wordCount = cw + countWords u\<rparr> #
         spec_greedy_pack ex sep us [] 0"
  using assms by (auto simp: spec_greedy_pack.simps(2) Let_def)

lemma chunk_of_verse:
  "chunk_of \<lparr>content = c, wordCount = n, type = t\<rparr> = \<lparr>content = c, wordCount = n\<rparr>"
  by (simp add: chunk_of_def)

lemma pack_lines_spec:
  "cw = countWords cur \<Longrightarrow>
     map chunk_of (pack_lines t ls [] cur cw) = spec_greedy_pack False nl ls cur cw"
proof (induction ls arbitrary: cur cw)
  case Nil
  then show ?case by (simp add: chunk_of_verse trim_nonempty_iff)
next
  case (Cons l ls)
  show ?case
  proof (cases "MAX_WORDS_PER_SLIDE < cw + countWords l \<and> 0 < cw")
    case False
    have "map chunk_of (pack_lines t ls [] (append_unit nl cur l) (cw + countWords l)) =
          spec_greedy_pack False nl ls (append_unit nl cur l) (cw + countWords l)"
      using Cons.prems by (intro Cons.IH) (simp add: countWords_append_unit isWhiteSpace_nl)
    then show ?thesis
      by (simp only: pack_lines_append[OF False] spec_pack_append[OF False])
  next
    case True
    then have c: "MAX_WORDS_PER_SLIDE < cw + countWords l" "0 < cw" by simp_all
    have "pack_lines t (l # ls) [] cur cw =
          [\<lparr>content = trim cur, wordCount = cw, type = t\<rparr>] @
          pack_lines t ls [] l (countWords l)"
      using pack_lines_acc[of t ls "[\<lparr>content = trim cur, wordCount = cw, type = t\<rparr>]"]
      by (simp add: pack_lines_close[OF c])
    moreover have "map chunk_of (pack_lines t ls [] l (countWords l)) =
                   spec_greedy_pack False nl ls l (countWords l)"
      by (intro Cons.IH) simp
    ultimately show ?thesis
      using spec_pack_close[OF c, of False nl ls cur] by (simp add: chunk_of_verse)
  qed
qed

lemma countWords_foldl_append_unit:
  "isWhiteSpace sep \<Longrightarrow>
     countWords (foldl (append_unit sep) cur ls) = countWords cur + sum_list (map countWords ls)"
  by (induction ls arbitrary: cur) (simp_all add: countWords_append_unit)

lemma spec_pack_fits:
  "cw = countWords cur \<Longrightarrow> cw + sum_list (map countWords ls) \<le> MAX_WORDS_PER_SLIDE \<Longrightarrow>
     spec_greedy_pack ex nl ls cur cw =
       (if 0 < cw + sum_list (map countWords ls)
        then [\<lparr>content = trim (foldl (append_unit nl) cur ls),
                wordCount = cw + sum_list (map countWords ls)\<rparr>]
        else [])"
proof (induction ls arbitrary: cur cw)
  case Nil
  then show ?case by simp
next
  case (Cons l ls)
  have n: "\<not> (MAX_WORDS_PER_SLIDE < cw + countWords l \<and> 0 < cw)"
    using Cons.prems(2) by simp
  have "spec_greedy_pack ex nl ls (append_unit nl cur l) (cw + countWords l) =
       (if 0 < cw + countWords l + sum_list (map countWords ls)
        then [\<lparr>content = trim (foldl (append_unit nl) (append_unit nl cur l) ls),
                wordCount = cw + countWords l + sum_list (map countWords ls)\<rparr>]
        else [])"
    using Cons.prems
    by (intro Cons.IH) (simp_all add: countWords_append_unit isWhiteSpace_nl)
  then show ?case by (simp add: spec_pack_append[OF n] add.assoc)
qed

lemma lines_of_section:
  assumes "trimmed c"
  shows "trim (foldl (append_unit nl) [] (js_split match_nl None [] c)) = c"
    and "sum_list (map countWords (js_split match_nl None [] c)) = countWords c"
proof -
  let ?ls = "js_split match_nl None [] c"
  have "trim (foldl (append_unit nl) [] ?ls) = trim (join_with nl ?ls)"
    using isWhiteSpace_nl by (rule trim_foldl_append_unit)
  also have "\<dots> = c" using assms by (simp add: join_split_nl trim_trimmed)
  finally show 1: "trim (foldl (append_unit nl) [] ?ls) = c" .
  have "sum_list (map countWords ?ls) = countWords (foldl (append_unit nl) [] ?ls)"
    by (simp add: countWords_foldl_append_unit isWhiteSpace_nl countWords_Nil)
  also have "\<dots> = countWords (trim (foldl (append_unit nl) [] ?ls))"
    by (simp only: countWords_trim)
  finally show "sum_list (map countWords ?ls) = countWords c" by (simp only: 1)
qed

lemma optimizeSection_spec:
  assumes "trimmed (fst sec)"
  shows "map chunk_of (optimizeSection [] sec) =
         spec_greedy_pack False nl (js_split match_nl None [] (fst sec)) [] 0"
proof (cases "countWords (fst sec) \<le> MAX_WORDS_PER_SLIDE")
  case True
  let ?ls = "js_split match_nl None [] (fst sec)"
  have pos: "0 < countWords (fst sec)" using assms by (rule trimmed_countWords_pos)
  have "spec_greedy_pack False nl ?ls [] 0 =
        [\<lparr>content = fst sec, wordCount = countWords (fst sec)\<rparr>]"
    using spec_pack_fits[of 0 "[]" ?ls False] True pos lines_of_section[OF assms]
    by (simp add: countWords_Nil)
  then show ?thesis using True by (simp add: optimizeSection_def chunk_of_verse)
next
  case False
  then show ?thesis
    using pack_lines_spec[of 0 "[]" "snd sec" "js_split match_nl None [] (fst sec)"]
    by (simp add: optimizeSection_def countWords_Nil)
qed

lemma pack_lines_type:
  "\<forall>v\<in>set ov. type v = t \<Longrightarrow> \<forall>v\<in>set (pack_lines t ls ov cur cw). type v = t"
proof (induction ls arbitrary: ov cur cw)
  case Nil
  then show ?case by simp
next
  case (Cons l ls)
  show ?case
  proof (cases "MAX_WORDS_PER_SLIDE < cw + countWords l \<and> 0 < cw")
    case False
    show ?thesis
      by (simp only: pack_lines_append[OF False]) (rule Cons.IH[OF Cons.prems])
  next
    case True
    then have c: "MAX_WORDS_PER_SLIDE < cw + countWords l" "0 < cw" by simp_all
    have "\<forall>v\<in>set (ov @ [\<lparr>content = trim cur, wordCount = cw, type = t\<rparr>]). type v = t"
      using Cons.prems by simp
    then show ?thesis
      by (simp only: pack_lines_close[OF c]) (rule Cons.IH)
  qed
qed

lemma optimizeSection_type: "\<forall>v\<in>set (optimizeSection [] sec). type v = snd sec"
  using pack_lines_type[of "[]" "snd sec"]
  by (simp add: optimizeSection_def Let_def)

lemma split_nl_no_nl:
  "nl \<notin> set a \<Longrightarrow>
     js_split match_nl prev cur (a @ rest) =
     js_split match_nl (if a = [] then prev else Some (last a)) (rev a @ cur) rest"
proof (induction a arbitrary: prev cur)
  case Nil
  then show ?case by simp
next
  case (Cons c a)
  then have "js_split match_nl prev cur ((c # a) @ rest) =
             js_split match_nl (Some c) (c # cur) (a @ rest)"
    by (auto simp: match_nl_def)
  also have "\<dots> = js_split match_nl (if a = [] then Some c else Some (last a))
                     (rev a @ c # cur) rest"
    using Cons.prems by (intro Cons.IH) simp
  finally show ?case by simp
qed

lemma split_nl_two_lines:
  assumes "nl \<notin> set a" "nl \<notin> set b"
  shows "js_split match_nl None [] (a @ nl # b) = [a, b]"
proof -
  have "js_split match_nl None [] (a @ nl # b) =
        js_split match_nl (if a = [] then None else Some (last a)) (rev a) (nl # b)"
    using split_nl_no_nl[OF assms(1), of None "[]" "nl # b"] by simp
  also have "\<dots> = a # js_split match_nl (Some nl) [] b"
    by (simp add: match_nl_def)
  also have "\<dots> = [a, b]" using split_nl_single[OF assms(2), of "Some nl" "[]"] by simp
  finally show ?thesis .
qed

lemma split_blank_two_lines:
  assumes "nl \<notin> set a" "nl \<notin> set b" "b \<noteq> []" "\<not> isWhiteSpace (hd b)"
  shows "js_split match_blank_line None [] (a @ nl # b) = [a @ nl # b]"
proof -
  obtain x r where b: "b = x # r" using assms(3) by (cases b) auto
  have "js_split match_blank_line None [] (a @ nl # b) =
        js_split match_blank_line (if a = [] then None else Some (last a)) (rev a) (nl # b)"
    using split_blank_no_nl[OF assms(1), of None "[]" "nl # b"] by simp
  also have "\<dots> = js_split match_blank_line (Some nl) (nl # rev a) b"
    using assms(4) b by (simp add: match_blank_line_def)
  also have "\<dots> = [a @ nl # b]"
    using split_blank_single[OF assms(2), of "Some nl" "nl # rev a"] by simp
  finally show ?thesis .
qed

lemma mot79: "trimmed (sentence_of 79 (js ''mot''))" "countWords (sentence_of 79 (js ''mot'')) = 79"
  "nl \<notin> set (sentence_of 79 (js ''mot''))"
  using trimmed_sentence_of[OF plain_mot(1) plain_mot_ws, of 78]
    countWords_sentence_of[OF plain_mot(1) plain_mot_ws, of 78]
    nl_notin_sentence_of[OF plain_mot_ws, of 79]
  by simp_all

lemma mot12: "trimmed (sentence_of 12 (js ''mot''))" "countWords (sentence_of 12 (js ''mot'')) = 12"
  "nl \<notin> set (sentence_of 12 (js ''mot''))"
  using trimmed_sentence_of[OF plain_mot(1) plain_mot_ws, of 11]
    countWords_sentence_of[OF plain_mot(1) plain_mot_ws, of 11]
    nl_notin_sentence_of[OF plain_mot_ws, of 12]
  by simp_all

lemma two_line_section_lines:
  "js_split match_nl None [] two_line_section =
     [sentence_of 79 (js ''mot''), sentence_of 12 (js ''mot'')]"
  using split_nl_two_lines[OF mot79(3) mot12(3)] by (simp add: two_line_section_def)

lemma two_line_section_trimmed: "trimmed two_line_section"
  using trimmed_sep[OF mot79(1) mot12(1), of nl] by (simp add: two_line_section_def)

lemma two_line_section_words: "countWords two_line_section = 91"
  using mot79(2) mot12(2)
  by (simp add: two_line_section_def countWords_word_starts word_starts_sep isWhiteSpace_nl)

lemma two_line_section_sections:
  "splitSongIntoSections two_line_section = [(two_line_section, Verse)]"
proof (rule sections_of_block)
  show "js_split match_blank_line None [] two_line_section = [two_line_section]"
    using split_blank_two_lines[OF mot79(3) mot12(3)] mot12(1)
    by (simp add: two_line_section_def trimmed_def)
  show "trimmed two_line_section" by (rule two_line_section_trimmed)
  show "\<forall>c\<in>set two_line_section. c \<noteq> 0x52 \<and> c \<noteq> 0x72"
    using set_sentence_of[of 79 "js ''mot''"] set_sentence_of[of 12 "js ''mot''"] mot_chars
    by (auto simp: two_line_section_def)
  have "hd two_line_section = hd (sentence_of (Suc 78) (js ''mot''))"
    using mot79(1) by (simp add: two_line_section_def trimmed_def)
  then show "\<not> isDigit (hd two_line_section)"
    using hd_sentence_of[OF plain_mot(1), of 78] mot_hd by simp
qed

lemma two_line_section_song:
  "optimizeSongForWordCount two_line_section =
     [\<lparr>content = sentence_of 79 (js ''mot''), wordCount = 79, type = Verse\<rparr>,
      \<lparr>content = sentence_of 12 (js ''mot''), wordCount = 12, type = Verse\<rparr>]"
  using mot79 mot12
  by (simp add: optimizeSongForWordCount_def two_line_section_sections optimizeSection_def
      two_line_section_words two_line_section_lines pack_lines_append pack_lines_close
      append_unit_Nil trim_trimmed trimmed_nonempty MAX_WORDS_PER_SLIDE_def)

lemma two_line_section_spec:
  "spec_greedy_pack True nl (js_split match_nl None [] two_line_section) [] 0 =
     [\<lparr>content = two_line_section, wordCount = 91\<rparr>]"
proof -
  have "append_unit nl (sentence_of 79 (js ''mot'')) (sentence_of 12 (js ''mot'')) =
        two_line_section"
    using mot79(1) by (simp add: append_unit_Cons trimmed_nonempty two_line_section_def)
  then show ?thesis
    using mot79 mot12 two_line_section_trimmed
    by (simp add: two_line_section_lines spec_pack_append spec_pack_force append_unit_Nil
        trim_trimmed MAX_WORDS_PER_SLIDE_def MIN_WORDS_PER_SLIDE_def)
qed

text \<open>
  C3, as the specification states it, fails: on a section of two lines of 79 and of 12
  words, song mode closes the first chunk before the second line and gives chunks of 79
  and 12 words, where the packer with step 3a appends the second line and gives one
  chunk of 91 words.
\<close>

theorem song_packer_equivalence_counterexample:
  "splitSongIntoSections two_line_section = [(two_line_section, Verse)] \<and>
   map chunk_of (optimizeSongForWordCount two_line_section) =
     [\<lparr>content = sentence_of 79 (js ''mot''), wordCount = 79\<rparr>,
      \<lparr>content = sentence_of 12 (js ''mot''), wordCount = 12\<rparr>] \<and>
   spec_greedy_pack True nl (js_split match_nl None [] two_line_section) [] 0 =
     [\<lparr>content = two_line_section, wordCount = 91\<rparr>] \<and>
   map chunk_of (optimizeSongForWordCount two_line_section) \<noteq>
     spec_greedy_pack True nl (js_split match_nl None [] two_line_section) [] 0"
  by (simp add: two_line_section_sections two_line_section_song two_line_section_spec
      chunk_of_verse)

text \<open>
  C3, amended.  The chunks of a song are the chunks of its sections, one section after
  the other, and the chunks of a section, which inherit its type, are those of the
  greedy packer without step 3a (steps 1, 2, 3b, 4 and 5) over the lines of the section,
  joined by newlines and trimmed.
\<close>

theorem song_sections_packed_without_exception:
  "optimizeSongForWordCount lyr =
     concat (map (optimizeSection []) (splitSongIntoSections lyr)) \<and>
   (\<forall>sec\<in>set (splitSongIntoSections lyr).
      map chunk_of (optimizeSection [] sec) =
        spec_greedy_pack False nl (js_split match_nl None [] (fst sec)) [] 0 \<and>
      (\<forall>v\<in>set (optimizeSection [] sec). type v = snd sec))"
  using optimizeSong_concat[of lyr] optimizeSection_spec[OF sections_trimmed, of _ lyr]
    optimizeSection_type
  by blast

theorem song_sections_packed_without_exception_witness:
  "(two_line_section, Verse) \<in> set (splitSongIntoSections two_line_section) \<and>
   map chunk_of (optimizeSection [] (two_line_section, Verse)) =
     spec_greedy_pack False nl (js_split match_nl None [] two_line_section) [] 0 \<and>
   optimizeSongForWordCount two_line_section = optimizeSection [] (two_line_section, Verse) \<and>
   map wordCount (optimizeSection [] (two_line_section, Verse)) = [79, 12] \<and>
   map type (optimizeSection [] (two_line_section, Verse)) = [Verse, Verse]"
proof -
  have m: "(two_line_section, Verse) \<in> set (splitSongIntoSections two_line_section)"
    by (simp add: two_line_section_sections)
  have e: "optimizeSection [] (two_line_section, Verse) =
     [\<lparr>content = sentence_of 79 (js ''mot''), wordCount = 79, type = Verse\<rparr>,
      \<lparr>content = sentence_of 12 (js ''mot''), wordCount = 12, type = Verse\<rparr>]"
    using two_line_section_song
    by (simp add: optimizeSongForWordCount_def two_line_section_sections)
  have w: "map wordCount (optimizeSection [] (two_line_section, Verse)) = [79, 12]"
    "map type (optimizeSection [] (two_line_section, Verse)) = [Verse, Verse]"
    by (simp_all add: e)
  from song_sections_packed_without_exception[of two_line_section] m w
  show ?thesis
    by (simp add: two_line_section_sections)
qed

section \<open>Slide titles\<close>

declare numberToString.simps [simp del]

lemma title_suffix:
  "suffix (js '' ('' @ numberToString index @ js ''/'' @ numberToString n @ js '')'')
     (generateOptimizedVerseTitle verse songTitle index n)"
  by (simp add: generateOptimizedVerseTitle_def Let_def suffix_def)

lemma slides_length:
  "length (createOptimizedSongSlides song) = length (optimizeSongForWordCount (lyrics song))"
  by (simp add: createOptimizedSongSlides_def Let_def)

lemma slides_nth:
  assumes "i < length (optimizeSongForWordCount (lyrics song))"
  shows "createOptimizedSongSlides song ! i =
     \<lparr>content = content (optimizeSongForWordCount (lyrics song) ! i),
      wordCount = wordCount (optimizeSongForWordCount (lyrics song) ! i),
      slideTitle = generateOptimizedVerseTitle (optimizeSongForWordCount (lyrics song) ! i)
        (title song) (i + 1) (length (optimizeSongForWordCount (lyrics song)))\<rparr>"
  using assms by (simp add: createOptimizedSongSlides_def Let_def nth_enumerate_eq)

text \<open>
  C4, as the specification states it, fails: for lyrics of two sections of one chunk
  each, the title of the second slide ends with (2/2) and not with (1/1), where the
  position of its chunk in its section is 1 and the section has 1 chunk.
\<close>

theorem section_title_counterexample:
  "map (optimizeSection []) (splitSongIntoSections (js ''a'' @ [nl, nl] @ js ''b'')) =
     [[\<lparr>content = js ''a'', wordCount = 1, type = Verse\<rparr>],
      [\<lparr>content = js ''b'', wordCount = 1, type = Verse\<rparr>]] \<and>
   map slideTitle
     (createOptimizedSongSlides \<lparr>title = js ''T'', lyrics = js ''a'' @ [nl, nl] @ js ''b''\<rparr>) =
     [js ''T - Partie 1 (1/2)'', js ''T - Partie 2 (2/2)''] \<and>
   \<not> suffix (js '' (1/1)'') (js ''T - Partie 2 (2/2)'')"
proof (intro conjI)
  show "map (optimizeSection []) (splitSongIntoSections (js ''a'' @ [nl, nl] @ js ''b'')) =
     [[\<lparr>content = js ''a'', wordCount = 1, type = Verse\<rparr>],
      [\<lparr>content = js ''b'', wordCount = 1, type = Verse\<rparr>]]"
    by code_simp
  show "map slideTitle
     (createOptimizedSongSlides \<lparr>title = js ''T'', lyrics = js ''a'' @ [nl, nl] @ js ''b''\<rparr>) =
     [js ''T - Partie 1 (1/2)'', js ''T - Partie 2 (2/2)'']"
    by code_simp
  show "\<not> suffix (js '' (1/1)'') (js ''T - Partie 2 (2/2)'')"
    by (simp add: js_def suffix_to_prefix)
qed

text \<open>
  C4, amended.  There is one slide for each chunk of the song, and the title of the
  slide of the chunk at position \<open>i + 1\<close> in the chunk sequence of the whole song is
  \<open>generateOptimizedVerseTitle\<close> of that chunk, that position and the number of chunks
  of the whole song; it ends with \<open>(position/total)\<close>.  So the suffixes of the titles
  of a song of \<open>total\<close> chunks are \<open>(1/total)\<close> to \<open>(total/total)\<close>, in order.
\<close>

theorem titles_numbered_within_song:
  "length (createOptimizedSongSlides song) = length (optimizeSongForWordCount (lyrics song)) \<and>
   (\<forall>i < length (optimizeSongForWordCount (lyrics song)).
      slideTitle (createOptimizedSongSlides song ! i) =
        generateOptimizedVerseTitle (optimizeSongForWordCount (lyrics song) ! i) (title song)
          (i + 1) (length (optimizeSongForWordCount (lyrics song))) \<and>
      suffix (js '' ('' @ numberToString (i + 1) @ js ''/'' @
                numberToString (length (optimizeSongForWordCount (lyrics song))) @ js '')'')
        (slideTitle (createOptimizedSongSlides song ! i)))"
proof (intro conjI allI impI)
  show "length (createOptimizedSongSlides song) =
        length (optimizeSongForWordCount (lyrics song))"
    by (rule slides_length)
next
  fix i assume i: "i < length (optimizeSongForWordCount (lyrics song))"
  show t: "slideTitle (createOptimizedSongSlides song ! i) =
        generateOptimizedVerseTitle (optimizeSongForWordCount (lyrics song) ! i) (title song)
          (i + 1) (length (optimizeSongForWordCount (lyrics song)))"
    by (simp only: slides_nth[OF i]) simp
  show "suffix (js '' ('' @ numberToString (i + 1) @ js ''/'' @
                numberToString (length (optimizeSongForWordCount (lyrics song))) @ js '')'')
        (slideTitle (createOptimizedSongSlides song ! i))"
    by (simp only: t) (rule title_suffix)
qed

theorem titles_numbered_within_song_witness:
  "(1::nat) < length (optimizeSongForWordCount (js ''R/ a'' @ [nl, nl] @ js ''1. b'')) \<and>
   slideTitle (createOptimizedSongSlides
      \<lparr>title = js ''MonChant'', lyrics = js ''R/ a'' @ [nl, nl] @ js ''1. b''\<rparr> ! 1) =
     js ''MonChant - Couplet 1 (2/2)'' \<and>
   suffix (js '' ('' @ numberToString 2 @ js ''/'' @ numberToString 2 @ js '')'')
     (slideTitle (createOptimizedSongSlides
        \<lparr>title = js ''MonChant'', lyrics = js ''R/ a'' @ [nl, nl] @ js ''1. b''\<rparr> ! 1))"
proof -
  let ?l = "js ''R/ a'' @ [nl, nl] @ js ''1. b''"
  let ?song = "\<lparr>title = js ''MonChant'', lyrics = ?l\<rparr>"
  let ?v = "\<lparr>content = js ''1. b'', wordCount = 2, type = NumberedVerse\<rparr>"
  have v: "optimizeSongForWordCount ?l =
     [\<lparr>content = js ''R/ a'', wordCount = 2, type = Refrain\<rparr>, ?v]"
    by code_simp
  have g: "generateOptimizedVerseTitle ?v (js ''MonChant'') 2 2 =
      js ''MonChant - Couplet 1 (2/2)''"
    by code_simp
  have l: "lyrics ?song = ?l" "title ?song = js ''MonChant''" by simp_all
  have n: "optimizeSongForWordCount ?l ! 1 = ?v" "length (optimizeSongForWordCount ?l) = 2"
    using v by simp_all
  have len: "1 < length (optimizeSongForWordCount (lyrics ?song))"
    by (simp only: l n)
  note t = titles_numbered_within_song[of ?song, THEN conjunct2, rule_format, OF len]
  have t': "slideTitle (createOptimizedSongSlides ?song ! 1) =
        generateOptimizedVerseTitle ?v (js ''MonChant'') 2 2 \<and>
      suffix (js '' ('' @ numberToString 2 @ js ''/'' @ numberToString 2 @ js '')'')
        (slideTitle (createOptimizedSongSlides ?song ! 1))"
    using t unfolding l n one_add_one .
  from t' have 1: "slideTitle (createOptimizedSongSlides ?song ! 1) =
      js ''MonChant - Couplet 1 (2/2)''"
    unfolding g by (rule conjunct1)
  from t' have 2: "suffix (js '' ('' @ numberToString 2 @ js ''/'' @ numberToString 2 @ js '')'')
     (slideTitle (createOptimizedSongSlides ?song ! 1))"
    by (rule conjunct2)
  from len have 0: "(1::nat) < length (optimizeSongForWordCount ?l)" by (simp only: l)
  from 0 1 2 show ?thesis by (intro conjI)
qed

section \<open>Classification of the sections\<close>

lemma match_leading_number_iff:
  "match_leading_number s \<noteq> None \<longleftrightarrow>
     (\<exists>ds rest. ds \<noteq> [] \<and> (\<forall>d\<in>set ds. isDigit d) \<and> s = ds @ [0x2E] @ rest)"
proof
  assume m: "match_leading_number s \<noteq> None"
  let ?ds = "takeWhile isDigit s"
  from m obtain c rest where d: "dropWhile isDigit s = c # rest"
    by (cases "dropWhile isDigit s") (auto simp: match_leading_number_def Let_def)
  with m have "?ds \<noteq> []" "c = 0x2E"
    by (auto simp: match_leading_number_def Let_def split: if_splits)
  moreover have "s = ?ds @ dropWhile isDigit s" by simp
  moreover have "\<forall>d\<in>set ?ds. isDigit d" by (auto dest: set_takeWhileD)
  ultimately show "\<exists>ds rest. ds \<noteq> [] \<and> (\<forall>d\<in>set ds. isDigit d) \<and> s = ds @ [0x2E] @ rest"
    using d by (intro exI[of _ ?ds] exI[of _ rest]) simp
next
  assume "\<exists>ds rest. ds \<noteq> [] \<and> (\<forall>d\<in>set ds. isDigit d) \<and> s = ds @ [0x2E] @ rest"
  then obtain ds rest where ds: "ds \<noteq> []" "\<forall>d\<in>set ds. isDigit d" "s = ds @ [0x2E] @ rest"
    by blast
  have nd: "\<not> isDigit 0x2E" by (simp add: isDigit_def)
  have "takeWhile isDigit s = ds" "dropWhile isDigit s = 0x2E # rest"
    using ds(2,3) nd by (simp_all add: takeWhile_append2 dropWhile_append2)
  then show "match_leading_number s \<noteq> None"
    using ds(1) by (simp add: match_leading_number_def Let_def)
qed

text \<open>
  C5, as the specification states it, fails: a section whose first line neither starts
  with \<open>R/\<close> nor contains \<open>refrain\<close>, but whose second line contains \<open>refrain\<close>,
  is a refrain.
\<close>

theorem first_line_classification_counterexample:
  "splitSongIntoSections (js ''Gloire'' @ [nl] @ js ''au refrain'') =
     [(js ''Gloire'' @ [nl] @ js ''au refrain'', Refrain)] \<and>
   first_line (js ''Gloire'' @ [nl] @ js ''au refrain'') = js ''Gloire'' \<and>
   \<not> (startsWith (js ''Gloire'') (js ''R/'') \<or>
      js_includes (toLowerCase (js ''Gloire'')) (js ''refrain''))"
  by code_simp

text \<open>
  C5, amended.  Every section has a content that is not empty and is trimmed, and its
  type is decided by this whole content: refrain if and only if the content starts with
  \<open>R/\<close> or contains \<open>refrain\<close>, in any case of the letters A to Z, anywhere in the
  section; else numbered verse if and only if the content starts with one or more
  digits followed by a period; else verse.
\<close>

theorem sections_classified_by_content:
  "\<forall>(c, t)\<in>set (splitSongIntoSections lyr).
     c \<noteq> [] \<and> trim c = c \<and>
     (t = Refrain \<longleftrightarrow>
        startsWith c (js ''R/'') \<or> js_includes (toLowerCase c) (js ''refrain'')) \<and>
     (t = NumberedVerse \<longleftrightarrow>
        t \<noteq> Refrain \<and>
        (\<exists>ds rest. ds \<noteq> [] \<and> (\<forall>d\<in>set ds. isDigit d) \<and> c = ds @ [0x2E] @ rest)) \<and>
     (t = Verse \<longleftrightarrow> t \<noteq> Refrain \<and> t \<noteq> NumberedVerse)"
proof (intro ballI, clarify)
  fix c t assume m: "(c, t) \<in> set (splitSongIntoSections lyr)"
  from sections_trimmed[OF m] have c: "c \<noteq> []" "trim c = c"
    by (simp_all add: trimmed_nonempty trim_trimmed)
  from sections_type[OF m] have t: "t = section_type_of c" by simp
  have n: "match_leading_number c \<noteq> None \<longleftrightarrow>
     (\<exists>ds rest. ds \<noteq> [] \<and> (\<forall>d\<in>set ds. isDigit d) \<and> c = ds @ [0x2E] @ rest)"
    by (rule match_leading_number_iff)
  have 1: "t = Refrain \<longleftrightarrow>
        startsWith c (js ''R/'') \<or> js_includes (toLowerCase c) (js ''refrain'')"
    unfolding t section_type_of_def by simp
  have 2: "t = NumberedVerse \<longleftrightarrow> t \<noteq> Refrain \<and> match_leading_number c \<noteq> None"
    unfolding t section_type_of_def by simp
  have 3: "t = Verse \<longleftrightarrow> t \<noteq> Refrain \<and> t \<noteq> NumberedVerse"
    by (cases t) simp_all
  show "c \<noteq> [] \<and> trim c = c \<and>
     (t = Refrain \<longleftrightarrow>
        startsWith c (js ''R/'') \<or> js_includes (toLowerCase c) (js ''refrain'')) \<and>
     (t = NumberedVerse \<longleftrightarrow>
        t \<noteq> Refrain \<and>
        (\<exists>ds rest. ds \<noteq> [] \<and> (\<forall>d\<in>set ds. isDigit d) \<and> c = ds @ [0x2E] @ rest)) \<and>
     (t = Verse \<longleftrightarrow> t \<noteq> Refrain \<and> t \<noteq> NumberedVerse)"
    using c 1 2 3 unfolding n by blast
qed

theorem sections_classified_by_content_witness:
  "splitSongIntoSections
     (js ''R/ Alleluia'' @ [nl, nl] @ js ''12. Premier'' @ [nl] @ js ''suite'' @ [nl, nl] @
      js ''Autre'') =
     [(js ''R/ Alleluia'', Refrain),
      (js ''12. Premier'' @ [nl] @ js ''suite'', NumberedVerse),
      (js ''Autre'', Verse)] \<and>
   startsWith (js ''R/ Alleluia'') (js ''R/'') \<and>
   \<not> (startsWith (js ''12. Premier'' @ [nl] @ js ''suite'') (js ''R/'') \<or>
      js_includes (toLowerCase (js ''12. Premier'' @ [nl] @ js ''suite'')) (js ''refrain'')) \<and>
   (\<exists>ds rest. ds \<noteq> [] \<and> list_all isDigit ds \<and>
      js ''12. Premier'' @ [nl] @ js ''suite'' = ds @ [0x2E] @ rest) \<and>
   \<not> (\<exists>ds rest. ds \<noteq> [] \<and> list_all isDigit ds \<and> js ''Autre'' = ds @ [0x2E] @ rest)"
proof -
  let ?l = "js ''R/ Alleluia'' @ [nl, nl] @ js ''12. Premier'' @ [nl] @ js ''suite'' @
            [nl, nl] @ js ''Autre''"
  have s: "splitSongIntoSections ?l =
     [(js ''R/ Alleluia'', Refrain),
      (js ''12. Premier'' @ [nl] @ js ''suite'', NumberedVerse),
      (js ''Autre'', Verse)]"
    by code_simp
  have r: "startsWith (js ''R/ Alleluia'') (js ''R/'')" by code_simp
  have m: "(js ''12. Premier'' @ [nl] @ js ''suite'', NumberedVerse) \<in>
           set (splitSongIntoSections ?l)"
    "(js ''Autre'', Verse) \<in> set (splitSongIntoSections ?l)"
    unfolding s by simp_all
  from sections_classified_by_content[of ?l] m show ?thesis
    using s r unfolding list_all_iff by fastforce
qed

section \<open>The overflow exception in reading mode\<close>

lemma split_ws_pieces:
  "p \<in> set (js_split match_ws prev cur s) \<Longrightarrow> \<forall>c\<in>set cur. \<not> isWhiteSpace c \<Longrightarrow>
     \<forall>c\<in>set p. \<not> isWhiteSpace c"
proof (induction s arbitrary: prev cur rule: length_induct)
  case (1 s)
  note IH = 1(1)[rule_format]
  show ?case
  proof (cases s)
    case Nil
    with 1(2,3) show ?thesis by simp
  next
    case (Cons c cs)
    show ?thesis
    proof (cases "isWhiteSpace c")
      case True
      let ?rest = "dropWhile isWhiteSpace cs"
      let ?prev = "Some (last (c # take (length (takeWhile isWhiteSpace cs)) cs))"
      from 1(2) Cons True have "p = rev cur \<or> p \<in> set (js_split match_ws ?prev [] ?rest)"
        by (simp add: match_ws_space dropWhile_eq_drop[symmetric])
      then show ?thesis
      proof
        assume "p = rev cur"
        with 1(3) show ?thesis by simp
      next
        assume p: "p \<in> set (js_split match_ws ?prev [] ?rest)"
        have "length ?rest < length s"
          using Cons by (simp add: le_imp_less_Suc length_dropWhile_le)
        from IH[OF this p] show ?thesis by auto
      qed
    next
      case False
      from 1(2) Cons False have p: "p \<in> set (js_split match_ws (Some c) (c # cur) cs)"
        by (simp add: match_ws_nonspace)
      have "length cs < length s" using Cons by simp
      from IH[OF this p] False 1(3) show ?thesis by auto
    qed
  qed
qed

lemma countWords_join_words:
  "\<forall>w\<in>set ws. w \<noteq> [] \<and> (\<forall>c\<in>set w. \<not> isWhiteSpace c) \<Longrightarrow>
     word_starts False (join_with sp ws) = length ws"
proof (induction ws)
  case Nil
  then show ?case by simp
next
  case (Cons w ws)
  then have w: "w \<noteq> []" "\<forall>c\<in>set w. \<not> isWhiteSpace c" by simp_all
  show ?case
  proof (cases "ws = []")
    case True
    then show ?thesis using word_starts_word[OF w, of False "[]"] by simp
  next
    case False
    then show ?thesis
      using word_starts_word[OF w, of False "sp # join_with sp ws"] Cons
      by (simp add: join_with_Cons isWhiteSpace_sp)
  qed
qed

lemma countWords_collapse: "countWords (collapse_whitespace s) = countWords s"
proof -
  let ?ws = "filter (\<lambda>w. w \<noteq> []) (js_split match_ws None [] s)"
  have "\<forall>w\<in>set ?ws. w \<noteq> [] \<and> (\<forall>c\<in>set w. \<not> isWhiteSpace c)"
    using split_ws_pieces[of _ None "[]" s] by auto
  then have "word_starts False (join_with sp ?ws) = length ?ws"
    by (rule countWords_join_words)
  moreover have "length (filter (\<lambda>w. 0 < length w) (js_split match_ws None [] s)) =
                 word_starts False s"
    by (simp only: split_ws_count) simp
  then have "length ?ws = word_starts False s" by simp
  ultimately show ?thesis
    by (simp add: collapse_whitespace_def countWords_word_starts)
qed

lemma mot3: "trimmed (sentence_of 3 (js ''mot''))" "countWords (sentence_of 3 (js ''mot'')) = 3"
  using trimmed_sentence_of[OF plain_mot(1) plain_mot_ws, of 2]
    countWords_sentence_of[OF plain_mot(1) plain_mot_ws, of 2]
  by (simp_all add: numeral_3_eq_3)

lemma two_sentence_text_sentences:
  "splitIntoSentences two_sentence_text =
     [sentence_of 79 (js ''mot''), sentence_of 12 (js ''mot'')]"
proof -
  have "splitIntoSentences
          (join_with sp (map (\<lambda>(n, w). sentence_of n w) [(79, js ''mot''), (12, js ''mot'')])) =
        map (\<lambda>(n, w). sentence_of n w) [(79, js ''mot''), (12, js ''mot'')]"
    using plain_mot by (intro splitIntoSentences_of) simp_all
  then show ?thesis by (simp add: two_sentence_text_def)
qed

lemma three_sentence_text_sentences:
  "splitIntoSentences three_sentence_text =
     [sentence_of 79 (js ''mot''), sentence_of 12 (js ''mot''), sentence_of 3 (js ''mot'')]"
proof -
  have "splitIntoSentences
          (join_with sp (map (\<lambda>(n, w). sentence_of n w)
             [(79, js ''mot''), (12, js ''mot''), (3, js ''mot'')])) =
        map (\<lambda>(n, w). sentence_of n w) [(79, js ''mot''), (12, js ''mot''), (3, js ''mot'')]"
    using plain_mot by (intro splitIntoSentences_of) simp_all
  then show ?thesis by (simp add: three_sentence_text_def)
qed

lemma trim_two: "trimmed a \<Longrightarrow> trimmed b \<Longrightarrow> trim (a @ sp # b) = a @ sp # b"
  by (intro trim_trimmed trimmed_sep)

text \<open>
  C2.  On a text of three sentences of 79, 12 and 3 words, the second sentence is
  appended to the first chunk by the overflow exception, which closes it with 91 words;
  but the next chunk starts with the same second sentence, not with the third: the
  appended sentence is in the result twice.
\<close>

theorem forced_unit_is_repeated:
  "splitIntoSentences three_sentence_text =
     [sentence_of 79 (js ''mot''), sentence_of 12 (js ''mot''), sentence_of 3 (js ''mot'')] \<and>
   optimizeContentForWordCount three_sentence_text =
     [\<lparr>content = sentence_of 79 (js ''mot'') @ [sp] @ sentence_of 12 (js ''mot''),
       wordCount = 91\<rparr>,
      \<lparr>content = sentence_of 12 (js ''mot'') @ [sp] @ sentence_of 3 (js ''mot''),
       wordCount = 15\<rparr>]"
proof -
  let ?a = "sentence_of 79 (js ''mot'')"
  let ?b = "sentence_of 12 (js ''mot'')"
  let ?c = "sentence_of 3 (js ''mot'')"
  have ne: "?a \<noteq> []" "?b \<noteq> []" using mot79(1) mot12(1) by (simp_all add: trimmed_nonempty)
  have t: "trim (?a @ sp # ?b) = ?a @ sp # ?b" "trim (?b @ sp # ?c) = ?b @ sp # ?c"
    using mot79(1) mot12(1) mot3(1) by (simp_all add: trim_two)
  have "pack_sentences [?a, ?b, ?c] [] [] 0 =
     [\<lparr>content = ?a @ [sp] @ ?b, wordCount = 91\<rparr>, \<lparr>content = ?b @ [sp] @ ?c, wordCount = 15\<rparr>]"
    using ne t
    by (simp add: pack_sentences_append pack_sentences_force mot79(2) mot12(2) mot3(2)
        append_unit_def MAX_WORDS_PER_SLIDE_def MIN_WORDS_PER_SLIDE_def)
  then show ?thesis
    by (simp add: optimizeContentForWordCount_def three_sentence_text_sentences
        MAX_WORDS_PER_SLIDE_def MIN_WORDS_PER_SLIDE_def)
qed

text \<open>
  C1.  On a text of two sentences of 79 and 12 words, the chunks hold the second
  sentence twice: their contents, joined by single spaces, have 103 words where the
  text has 91, so that their white-space-collapsed join is not the collapsed text.
\<close>

theorem content_not_preserved:
  "optimizeContentForWordCount two_sentence_text =
     [\<lparr>content = sentence_of 79 (js ''mot'') @ [sp] @ sentence_of 12 (js ''mot''),
       wordCount = 91\<rparr>,
      \<lparr>content = sentence_of 12 (js ''mot''), wordCount = 12\<rparr>] \<and>
   countWords two_sentence_text = 91 \<and>
   countWords (join_with sp (map content (optimizeContentForWordCount two_sentence_text))) =
     103 \<and>
   collapse_whitespace
     (join_with sp (map content (optimizeContentForWordCount two_sentence_text))) \<noteq>
   collapse_whitespace two_sentence_text"
proof -
  let ?a = "sentence_of 79 (js ''mot'')"
  let ?b = "sentence_of 12 (js ''mot'')"
  let ?out = "optimizeContentForWordCount two_sentence_text"
  have ne: "?a \<noteq> []" "?b \<noteq> []" using mot79(1) mot12(1) by (simp_all add: trimmed_nonempty)
  have t: "trim (?a @ sp # ?b) = ?a @ sp # ?b" "trim ?b = ?b"
    using mot79(1) mot12(1) by (simp_all add: trim_two trim_trimmed)
  have "pack_sentences [?a, ?b] [] [] 0 =
     [\<lparr>content = ?a @ [sp] @ ?b, wordCount = 91\<rparr>, \<lparr>content = ?b, wordCount = 12\<rparr>]"
    using ne t
    by (simp add: pack_sentences_append pack_sentences_force mot79(2) mot12(2)
        append_unit_def MAX_WORDS_PER_SLIDE_def MIN_WORDS_PER_SLIDE_def)
  then have out: "?out =
     [\<lparr>content = ?a @ [sp] @ ?b, wordCount = 91\<rparr>, \<lparr>content = ?b, wordCount = 12\<rparr>]"
    by (simp add: optimizeContentForWordCount_def two_sentence_text_sentences
        MAX_WORDS_PER_SLIDE_def MIN_WORDS_PER_SLIDE_def)
  have w: "countWords two_sentence_text = 91"
    using mot79(2) mot12(2)
    by (simp add: two_sentence_text_def countWords_word_starts word_starts_sep isWhiteSpace_sp)
  have j: "countWords (join_with sp (map content ?out)) = 103"
    using mot79(2) mot12(2)
    by (simp add: out countWords_word_starts word_starts_sep isWhiteSpace_sp)
  have "collapse_whitespace (join_with sp (map content ?out)) \<noteq>
        collapse_whitespace two_sentence_text"
  proof
    assume "collapse_whitespace (join_with sp (map content ?out)) =
            collapse_whitespace two_sentence_text"
    then have "countWords (collapse_whitespace (join_with sp (map content ?out))) =
               countWords (collapse_whitespace two_sentence_text)"
      by (rule arg_cong)
    then show False using w j by (simp only: countWords_collapse)
  qed
  with out w j show ?thesis by (intro conjI)
qed

section \<open>The lines of a section\<close>

text \<open>
  The separator of the sections matches at a newline that is followed by white space
  holding another newline.  No piece of the split, and so no section, holds such a
  place, and every line of a section has a word.
\<close>

lemma match_blank_line_None_iff:
  "match_blank_line prev (nl # t) = None \<longleftrightarrow> nl \<notin> set (takeWhile isWhiteSpace t)"
  by (auto simp: match_blank_line_def Let_def dropWhile_eq_Nil_conv)

lemma match_blank_line_Some: "match_blank_line prev s = Some k \<Longrightarrow> \<exists>n. k = Suc n"
  by (auto simp: match_blank_line_def Let_def split: list.splits if_splits)

lemma takeWhile_append_mono: "x \<in> set (takeWhile P xs) \<Longrightarrow> x \<in> set (takeWhile P (xs @ ys))"
  by (induction xs) (auto split: if_splits)

lemma split_blank_pieces:
  "p \<in> set (js_split match_blank_line prev cur s) \<Longrightarrow>
   \<forall>a t. rev cur = a @ nl # t \<longrightarrow> nl \<notin> set (takeWhile isWhiteSpace (t @ s)) \<Longrightarrow>
   p = a @ nl # t \<Longrightarrow> nl \<notin> set (takeWhile isWhiteSpace t)"
proof (induction s arbitrary: prev cur rule: length_induct)
  case (1 s)
  note IH = 1(1)[rule_format]
  show ?case
  proof (cases s)
    case Nil
    with 1(2) have "p = rev cur" by simp
    with 1(3,4) Nil show ?thesis by simp
  next
    case (Cons c cs)
    show ?thesis
    proof (cases "\<exists>n. match_blank_line prev (c # cs) = Some (Suc n)")
      case True
      then obtain n where n: "match_blank_line prev (c # cs) = Some (Suc n)" by blast
      with 1(2) Cons have "p = rev cur \<or>
          p \<in> set (js_split match_blank_line (Some (last (c # take n cs))) [] (drop n cs))"
        by simp
      then show ?thesis
      proof
        assume "p = rev cur"
        with 1(3,4) have "nl \<notin> set (takeWhile isWhiteSpace (t @ s))" by simp
        then show ?thesis using takeWhile_append_mono[of nl isWhiteSpace t s] by blast
      next
        assume p: "p \<in> set (js_split match_blank_line (Some (last (c # take n cs))) []
                      (drop n cs))"
        have len: "length (drop n cs) < length s" using Cons by simp
        have inv: "\<forall>a t. rev [] = a @ nl # t \<longrightarrow>
                     nl \<notin> set (takeWhile isWhiteSpace (t @ drop n cs))"
          by simp
        show ?thesis by (rule IH[OF len p inv[rule_format] 1(4)])
      qed
    next
      case False
      then have none: "match_blank_line prev (c # cs) = None"
        using match_blank_line_Some[of prev "c # cs"]
        by (cases "match_blank_line prev (c # cs)") auto
      then have "js_split match_blank_line prev cur (c # cs) =
                 js_split match_blank_line (Some c) (c # cur) cs"
        by simp
      with 1(2) Cons have p: "p \<in> set (js_split match_blank_line (Some c) (c # cur) cs)"
        by simp
      have len: "length cs < length s" using Cons by simp
      have inv: "\<forall>a t. rev (c # cur) = a @ nl # t \<longrightarrow>
                   nl \<notin> set (takeWhile isWhiteSpace (t @ cs))"
      proof (intro allI impI)
        fix a' t'
        assume e: "rev (c # cur) = a' @ nl # t'"
        show "nl \<notin> set (takeWhile isWhiteSpace (t' @ cs))"
        proof (cases t' rule: rev_cases)
          case Nil
          with e have "c = nl" by simp
          with none Nil show ?thesis by (simp add: match_blank_line_None_iff)
        next
          case (snoc ys y)
          with e have "rev cur = a' @ nl # ys" "y = c" by simp_all
          with 1(3) Cons snoc show ?thesis by simp
        qed
      qed
      show ?thesis by (rule IH[OF len p inv[rule_format] 1(4)])
    qed
  qed
qed

lemma trim_decomp:
  "p = takeWhile isWhiteSpace p @ trim p @
       rev (takeWhile isWhiteSpace (rev (dropWhile isWhiteSpace p)))"
proof -
  have "dropWhile isWhiteSpace p =
        trim p @ rev (takeWhile isWhiteSpace (rev (dropWhile isWhiteSpace p)))"
    unfolding trim_def by (rule rev_dropWhile_decomp)
  then have "takeWhile isWhiteSpace p @ dropWhile isWhiteSpace p =
        takeWhile isWhiteSpace p @ trim p @
          rev (takeWhile isWhiteSpace (rev (dropWhile isWhiteSpace p)))"
    by (simp only:)
  then show ?thesis by (simp only: takeWhile_dropWhile_id)
qed

lemma section_no_blank_line:
  assumes "sec \<in> set (splitSongIntoSections lyr)" "fst sec = a @ nl # t"
  shows "nl \<notin> set (takeWhile isWhiteSpace t)"
proof -
  from assms(1) obtain p where p: "p \<in> set (js_split match_blank_line None [] lyr)"
      "fst sec = trim p"
    by (auto simp: splitSongIntoSections_eq)
  obtain x y where xy: "p = x @ trim p @ y" using trim_decomp[of p] by blast
  then have "p = (x @ a) @ nl # (t @ y)" using assms(2) p(2) by simp
  then have "nl \<notin> set (takeWhile isWhiteSpace (t @ y))"
    using split_blank_pieces[OF p(1), of "x @ a" "t @ y"] by simp
  then show ?thesis using takeWhile_append_mono[of nl isWhiteSpace t y] by blast
qed

lemma first_line_nonblank:
  "cs \<noteq> [] \<Longrightarrow> \<not> isWhiteSpace (last cs) \<Longrightarrow> nl \<notin> set (takeWhile isWhiteSpace cs) \<Longrightarrow>
     \<exists>x\<in>set (takeWhile (\<lambda>x. x \<noteq> nl) cs). \<not> isWhiteSpace x"
  by (induction cs) (auto simp: isWhiteSpace_nl split: if_splits)

lemma split_nl_nonblank:
  "s \<noteq> [] \<longrightarrow> \<not> isWhiteSpace (last s) \<Longrightarrow>
   \<forall>a t. s = a @ nl # t \<longrightarrow> nl \<notin> set (takeWhile isWhiteSpace t) \<Longrightarrow>
   \<exists>c\<in>set (rev cur @ takeWhile (\<lambda>x. x \<noteq> nl) s). \<not> isWhiteSpace c \<Longrightarrow>
   l \<in> set (js_split match_nl prev cur s) \<Longrightarrow> \<exists>c\<in>set l. \<not> isWhiteSpace c"
proof (induction s arbitrary: prev cur)
  case Nil
  then show ?case by simp
next
  case (Cons c cs)
  have nb: "\<forall>a t. cs = a @ nl # t \<longrightarrow> nl \<notin> set (takeWhile isWhiteSpace t)"
  proof (intro allI impI)
    fix a t
    assume "cs = a @ nl # t"
    then have "c # cs = (c # a) @ nl # t" by simp
    with Cons.prems(2) show "nl \<notin> set (takeWhile isWhiteSpace t)" by blast
  qed
  show ?case
  proof (cases "c = nl")
    case True
    then have split: "js_split match_nl prev cur (c # cs) =
               rev cur # js_split match_nl (Some c) [] cs"
      by (simp add: match_nl_def)
    have ne: "cs \<noteq> []" using Cons.prems(1) True by (auto simp: isWhiteSpace_nl)
    then have la: "\<not> isWhiteSpace (last cs)" using Cons.prems(1) by simp
    have "c # cs = [] @ nl # cs" using True by simp
    with Cons.prems(2) have "nl \<notin> set (takeWhile isWhiteSpace cs)" by blast
    with ne la have first: "\<exists>x\<in>set (rev [] @ takeWhile (\<lambda>x. x \<noteq> nl) cs). \<not> isWhiteSpace x"
      using first_line_nonblank[of cs] by simp
    from Cons.prems(4) split have "l = rev cur \<or> l \<in> set (js_split match_nl (Some c) [] cs)"
      by simp
    then show ?thesis
    proof
      assume "l = rev cur"
      then show ?thesis using Cons.prems(3) True by simp
    next
      assume "l \<in> set (js_split match_nl (Some c) [] cs)"
      with Cons.IH[of "[]" "Some c"] la nb first show ?thesis by blast
    qed
  next
    case False
    then have split: "js_split match_nl prev cur (c # cs) =
               js_split match_nl (Some c) (c # cur) cs"
      by (simp add: match_nl_def)
    have la: "cs \<noteq> [] \<longrightarrow> \<not> isWhiteSpace (last cs)"
      using Cons.prems(1) by (auto split: if_splits)
    have first: "\<exists>x\<in>set (rev (c # cur) @ takeWhile (\<lambda>x. x \<noteq> nl) cs). \<not> isWhiteSpace x"
      using Cons.prems(3) False by simp
    from Cons.prems(4) split have "l \<in> set (js_split match_nl (Some c) (c # cur) cs)"
      by simp
    with Cons.IH[of "c # cur" "Some c"] la nb first show ?thesis by blast
  qed
qed

lemma section_lines_words:
  assumes "sec \<in> set (splitSongIntoSections lyr)"
    and "l \<in> set (js_split match_nl None [] (fst sec))"
  shows "0 < countWords l"
proof -
  have t: "trimmed (fst sec)" using assms(1) by (rule sections_trimmed)
  then obtain c cs where c: "fst sec = c # cs" "\<not> isWhiteSpace c"
    by (cases "fst sec") (auto simp: trimmed_def)
  then have "c \<noteq> nl" using isWhiteSpace_nl by auto
  with c have first: "\<exists>x\<in>set (rev [] @ takeWhile (\<lambda>x. x \<noteq> nl) (fst sec)). \<not> isWhiteSpace x"
    by auto
  have la: "fst sec \<noteq> [] \<longrightarrow> \<not> isWhiteSpace (last (fst sec))" using t by (simp add: trimmed_def)
  have nb: "\<forall>a t. fst sec = a @ nl # t \<longrightarrow> nl \<notin> set (takeWhile isWhiteSpace t)"
    using section_no_blank_line[OF assms(1)] by blast
  from split_nl_nonblank[OF la nb first assms(2)] show ?thesis
    by (simp add: countWords_pos_iff)
qed

section \<open>Chunks are runs of consecutive units\<close>

lemma trim_join_trimmed:
  "g \<noteq> [] \<Longrightarrow> \<forall>u\<in>set g. trimmed u \<Longrightarrow> trim (join_with sep g) = join_with sep g"
  by (intro trim_trimmed trimmed_join_with)

lemma countWords_le_sum: "u \<in> set g \<Longrightarrow> countWords u \<le> sum_list (map countWords g)"
  by (induction g) auto

lemma countWords_join_with:
  "isWhiteSpace sep \<Longrightarrow> countWords (join_with sep g) = sum_list (map countWords g)"
  by (induction sep g rule: join_with.induct)
    (simp_all add: countWords_word_starts word_starts_sep)

lemma lone_small:
  assumes "sum_list (map countWords g) \<le> MAX_WORDS_PER_SLIDE"
  shows "\<forall>u\<in>set g. MAX_WORDS_PER_SLIDE < countWords u \<longrightarrow> g = [u]"
proof (intro ballI impI)
  fix u
  assume "u \<in> set g" "MAX_WORDS_PER_SLIDE < countWords u"
  with assms countWords_le_sum[of u g] show "g = [u]" by simp
qed

lemma runs_of_ConsI:
  "g \<noteq> [] \<Longrightarrow> units = g @ rest \<Longrightarrow> content c = trim (join_with sep g) \<Longrightarrow>
   wordCount c = sum_list (map countWords g) \<Longrightarrow>
   \<forall>u\<in>set g. MAX_WORDS_PER_SLIDE < countWords u \<longrightarrow> g = [u] \<Longrightarrow>
   runs_of sep cs rest \<or>
     (MAX_WORDS_PER_SLIDE < wordCount c \<and> countWords (last g) \<le> 15 \<and>
      runs_of sep cs (last g # rest)) \<Longrightarrow>
   runs_of sep (c # cs) units"
  unfolding runs_of.simps by blast

lemma pack_sentences_runs:
  "\<forall>u\<in>set (g @ ss). trimmed u \<Longrightarrow> cur = join_with sp g \<Longrightarrow> cw = countWords cur \<Longrightarrow>
   \<forall>u\<in>set g. MAX_WORDS_PER_SLIDE < countWords u \<longrightarrow> g = [u] \<Longrightarrow>
     runs_of sp (pack_sentences ss [] cur cw) (g @ ss)"
proof (induction ss arbitrary: g cur cw)
  case Nil
  have sum: "cw = sum_list (map countWords g)"
    using Nil.prems(2,3) by (simp add: countWords_join_with isWhiteSpace_sp)
  show ?case
  proof (cases "g = []")
    case True
    with Nil show ?thesis by (simp add: trim_Nil)
  next
    case False
    then have tc: "trim cur = trim (join_with sp g)" "trim cur \<noteq> []"
      using Nil trim_join_trimmed[of g sp] trimmed_join_with[of g sp]
      by (auto simp: trimmed_def)
    then have "pack_sentences [] [] cur cw = [\<lparr>content = trim cur, wordCount = cw\<rparr>]"
      by simp
    moreover have "runs_of sp [\<lparr>content = trim cur, wordCount = cw\<rparr>] (g @ [])"
    proof (rule runs_of_ConsI[of g _ "[]"])
      show "g \<noteq> []" by (rule False)
      show "g @ [] = g @ []" by simp
      show "content \<lparr>content = trim cur, wordCount = cw\<rparr> = trim (join_with sp g)"
        using tc(1) by simp
      show "wordCount \<lparr>content = trim cur, wordCount = cw\<rparr> = sum_list (map countWords g)"
        using sum by simp
      show "\<forall>u\<in>set g. MAX_WORDS_PER_SLIDE < countWords u \<longrightarrow> g = [u]" by (rule Nil.prems(4))
      show "runs_of sp [] [] \<or>
            (MAX_WORDS_PER_SLIDE < wordCount \<lparr>content = trim cur, wordCount = cw\<rparr> \<and>
             countWords (last g) \<le> 15 \<and> runs_of sp [] [last g])"
        by simp
    qed
    ultimately show ?thesis by (simp only:)
  qed
next
  case (Cons s ss)
  let ?n = "countWords s"
  have sum: "cw = sum_list (map countWords g)"
    using Cons.prems(2,3) by (simp add: countWords_join_with isWhiteSpace_sp)
  have gt: "\<forall>u\<in>set g. trimmed u" and st: "trimmed s" using Cons.prems(1) by auto
  have apu: "append_unit sp cur s = join_with sp (g @ [s])"
    using Cons.prems(2) append_unit_join[OF gt st] by simp
  have all: "\<forall>u\<in>set ((g @ [s]) @ ss). trimmed u" using Cons.prems(1) by auto
  have all1: "\<forall>u\<in>set ([s] @ ss). trimmed u" using Cons.prems(1) by auto
  have one: "s = join_with sp [s]" by simp
  have lone1: "\<forall>u\<in>set [s]. MAX_WORDS_PER_SLIDE < countWords u \<longrightarrow> [s] = [u]" by simp
  have restart: "runs_of sp (pack_sentences ss [] s ?n) (s # ss)"
    using Cons.IH[OF all1 one refl lone1] by simp
  have tj: "trim (join_with sp (g @ [s])) = join_with sp (g @ [s])"
    using gt st by (intro trim_join_trimmed) auto
  have sne: "join_with sp (g @ [s]) \<noteq> []"
    using trimmed_join_with[of "g @ [s]" sp] gt st by (auto simp: trimmed_def)
  consider (app) "\<not> (MAX_WORDS_PER_SLIDE < cw + ?n \<and> 0 < cw)"
    | (close) "MAX_WORDS_PER_SLIDE < cw + ?n" "0 < cw"
        "\<not> (cw < MIN_WORDS_PER_SLIDE \<and> ?n \<le> 15)"
    | (force) "MAX_WORDS_PER_SLIDE < cw + ?n" "0 < cw"
        "cw < MIN_WORDS_PER_SLIDE" "?n \<le> 15"
    by blast
  then show ?case
  proof cases
    case app
    have cw': "cw + ?n = countWords (append_unit sp cur s)"
      using Cons.prems(3) by (simp add: countWords_append_unit isWhiteSpace_sp)
    have lone': "\<forall>u\<in>set (g @ [s]). MAX_WORDS_PER_SLIDE < countWords u \<longrightarrow> g @ [s] = [u]"
    proof (cases "cw = 0")
      case True
      have "g = []"
      proof (rule ccontr)
        assume "g \<noteq> []"
        then have "trimmed (join_with sp g)" using gt by (intro trimmed_join_with)
        then have "0 < countWords cur" using Cons.prems(2) by (simp add: trimmed_countWords_pos)
        with True Cons.prems(3) show False by simp
      qed
      then show ?thesis by simp
    next
      case False
      with app have "cw + ?n \<le> MAX_WORDS_PER_SLIDE" by simp
      then have "sum_list (map countWords (g @ [s])) \<le> MAX_WORDS_PER_SLIDE"
        using sum by simp
      then show ?thesis by (rule lone_small)
    qed
    from Cons.IH[OF all apu cw' lone'] show ?thesis
      by (simp only: pack_sentences_append[OF app]) simp
  next
    case close
    have g: "g \<noteq> []" using close(2) Cons.prems(2,3) by (auto simp: countWords_Nil)
    then have tc: "trim cur = trim (join_with sp g)" "trim cur \<noteq> []"
      using Cons.prems(2) gt trim_join_trimmed[of g sp] trimmed_join_with[of g sp]
      by (auto simp: trimmed_def)
    have "pack_sentences (s # ss) [] cur cw =
          \<lparr>content = trim cur, wordCount = cw\<rparr> # pack_sentences ss [] s ?n"
      using pack_sentences_acc[of ss "[\<lparr>content = trim cur, wordCount = cw\<rparr>]" s ?n] tc(2)
      by (simp add: pack_sentences_close[OF close])
    moreover have "runs_of sp (\<lparr>content = trim cur, wordCount = cw\<rparr> #
                     pack_sentences ss [] s ?n) (g @ s # ss)"
    proof (rule runs_of_ConsI[of g _ "s # ss"])
      show "g \<noteq> []" by (rule g)
      show "g @ s # ss = g @ s # ss" by simp
      show "content \<lparr>content = trim cur, wordCount = cw\<rparr> = trim (join_with sp g)"
        using tc(1) by simp
      show "wordCount \<lparr>content = trim cur, wordCount = cw\<rparr> = sum_list (map countWords g)"
        using sum by simp
      show "\<forall>u\<in>set g. MAX_WORDS_PER_SLIDE < countWords u \<longrightarrow> g = [u]"
        by (rule Cons.prems(4))
      show "runs_of sp (pack_sentences ss [] s ?n) (s # ss) \<or>
            (MAX_WORDS_PER_SLIDE < wordCount \<lparr>content = trim cur, wordCount = cw\<rparr> \<and>
             countWords (last g) \<le> 15 \<and>
             runs_of sp (pack_sentences ss [] s ?n) (last g # s # ss))"
        using restart by simp
    qed
    ultimately show ?thesis by (simp only:)
  next
    case force
    let ?c = "\<lparr>content = trim (append_unit sp cur s), wordCount = cw + ?n\<rparr>"
    have "pack_sentences (s # ss) [] cur cw = ?c # pack_sentences ss [] s ?n"
      using pack_sentences_acc[of ss "[?c]" s ?n] sne tj apu
      by (simp add: pack_sentences_force[OF force])
    moreover have "runs_of sp (?c # pack_sentences ss [] s ?n) (g @ s # ss)"
    proof (rule runs_of_ConsI[of "g @ [s]" _ ss])
      show "g @ [s] \<noteq> []" by simp
      show "g @ s # ss = (g @ [s]) @ ss" by simp
      show "content ?c = trim (join_with sp (g @ [s]))" using apu by simp
      show "wordCount ?c = sum_list (map countWords (g @ [s]))" using sum by simp
      show "\<forall>u\<in>set (g @ [s]). MAX_WORDS_PER_SLIDE < countWords u \<longrightarrow> g @ [s] = [u]"
      proof (intro ballI impI)
        fix u
        assume u: "u \<in> set (g @ [s])" "MAX_WORDS_PER_SLIDE < countWords u"
        have "countWords u \<le> MAX_WORDS_PER_SLIDE"
        proof (cases "u = s")
          case True
          then show ?thesis using force(4) by (simp add: MAX_WORDS_PER_SLIDE_def)
        next
          case False
          with u(1) have "u \<in> set g" by simp
          then have "countWords u \<le> cw" using sum countWords_le_sum[of u g] by simp
          then show ?thesis
            using force(3) by (simp add: MIN_WORDS_PER_SLIDE_def MAX_WORDS_PER_SLIDE_def)
        qed
        with u(2) show "g @ [s] = [u]" by simp
      qed
      show "runs_of sp (pack_sentences ss [] s ?n) ss \<or>
            (MAX_WORDS_PER_SLIDE < wordCount ?c \<and> countWords (last (g @ [s])) \<le> 15 \<and>
             runs_of sp (pack_sentences ss [] s ?n) (last (g @ [s]) # ss))"
        using restart force(1,4) by simp
    qed
    ultimately show ?thesis by (simp only:)
  qed
qed

lemma runs_of_ConsE:
  assumes "runs_of sep (c # cs) S"
  obtains g rest where "g \<noteq> []" "S = g @ rest" "content c = trim (join_with sep g)"
    "wordCount c = sum_list (map countWords g)"
    "\<forall>u\<in>set g. MAX_WORDS_PER_SLIDE < countWords u \<longrightarrow> g = [u]"
    "runs_of sep cs rest \<or>
     (MAX_WORDS_PER_SLIDE < wordCount c \<and> countWords (last g) \<le> 15 \<and>
      runs_of sep cs (last g # rest))"
  using assms unfolding runs_of.simps by blast

declare runs_of.simps(2) [simp del]

lemma sublist_append_left: "sublist g ys \<Longrightarrow> sublist g (ps @ ys)"
proof -
  assume "sublist g ys"
  then obtain p s where "ys = p @ g @ s" by (auto simp: sublist_def)
  then have "ps @ ys = (ps @ p) @ g @ s" by simp
  then show ?thesis by (simp only: sublist_appendI)
qed

lemma mergeSmallChunks_merge:
  assumes "wordCount a < MIN_WORDS_PER_SLIDE \<and>
           wordCount a + wordCount b \<le> MAX_WORDS_PER_SLIDE"
  shows "mergeSmallChunks (a # b # cs) =
         \<lparr>content = content a @ [sp] @ content b, wordCount = wordCount a + wordCount b\<rparr> #
         mergeSmallChunks cs"
  using assms by (simp add: Let_def)

lemma mergeSmallChunks_keep:
  assumes "\<not> (wordCount a < MIN_WORDS_PER_SLIDE \<and>
              wordCount a + wordCount b \<le> MAX_WORDS_PER_SLIDE)"
  shows "mergeSmallChunks (a # b # cs) = a # mergeSmallChunks (b # cs)"
  using assms by (auto simp: Let_def)

lemma mergeSmallChunks_runs:
  "\<forall>u\<in>set S. trimmed u \<Longrightarrow> runs_of sp cs S \<Longrightarrow> runs_of sp (mergeSmallChunks cs) S"
proof (induction cs arbitrary: S rule: mergeSmallChunks.induct)
  case 1
  then show ?case by simp
next
  case (2 c)
  then show ?case by simp
next
  case (3 a b cs)
  from 3(4) obtain ga rest where ga: "ga \<noteq> []" "S = ga @ rest"
      "content a = trim (join_with sp ga)" "wordCount a = sum_list (map countWords ga)"
      "\<forall>u\<in>set ga. MAX_WORDS_PER_SLIDE < countWords u \<longrightarrow> ga = [u]"
    and A: "runs_of sp (b # cs) rest \<or>
            (MAX_WORDS_PER_SLIDE < wordCount a \<and> countWords (last ga) \<le> 15 \<and>
             runs_of sp (b # cs) (last ga # rest))"
    by (rule runs_of_ConsE)
  have tr: "\<forall>u\<in>set rest. trimmed u" "\<forall>u\<in>set ga. trimmed u" using 3(3) ga(2) by auto
  have trl: "\<forall>u\<in>set (last ga # rest). trimmed u" using tr ga(1) by auto
  show ?case
  proof (cases "wordCount a < MIN_WORDS_PER_SLIDE \<and>
                wordCount a + wordCount b \<le> MAX_WORDS_PER_SLIDE")
    case True
    then have "\<not> MAX_WORDS_PER_SLIDE < wordCount a" by simp
    with A have "runs_of sp (b # cs) rest" by simp
    then obtain gb rest' where gb: "gb \<noteq> []" "rest = gb @ rest'"
        "content b = trim (join_with sp gb)" "wordCount b = sum_list (map countWords gb)"
      and B: "runs_of sp cs rest' \<or>
              (MAX_WORDS_PER_SLIDE < wordCount b \<and> countWords (last gb) \<le> 15 \<and>
               runs_of sp cs (last gb # rest'))"
      by (rule runs_of_ConsE)
    from True have "\<not> MAX_WORDS_PER_SLIDE < wordCount b" by simp
    with B have "runs_of sp cs rest'" by simp
    moreover have "\<forall>u\<in>set rest'. trimmed u" using tr(1) gb(2) by simp
    ultimately have IH: "runs_of sp (mergeSmallChunks cs) rest'"
      using 3(1)[OF refl True] by simp
    let ?m = "\<lparr>content = content a @ [sp] @ content b,
               wordCount = wordCount a + wordCount b\<rparr>"
    have tgb: "\<forall>u\<in>set gb. trimmed u" using tr(1) gb(2) by simp
    have ca: "content a = join_with sp ga" using ga(1,3) tr(2) by (simp add: trim_join_trimmed)
    have cb: "content b = join_with sp gb" using gb(1,3) tgb by (simp add: trim_join_trimmed)
    have "runs_of sp (?m # mergeSmallChunks cs) S"
    proof (rule runs_of_ConsI[of "ga @ gb" _ rest'])
      show "ga @ gb \<noteq> []" using ga(1) by simp
      show "S = (ga @ gb) @ rest'" using ga(2) gb(2) by simp
      have "trim (join_with sp (ga @ gb)) = join_with sp (ga @ gb)"
        using ga(1) tr(2) tgb by (intro trim_join_trimmed) auto
      then show "content ?m = trim (join_with sp (ga @ gb))"
        using ca cb ga(1) gb(1) by (simp add: join_with_append)
      show "wordCount ?m = sum_list (map countWords (ga @ gb))" using ga(4) gb(4) by simp
      have "sum_list (map countWords (ga @ gb)) \<le> MAX_WORDS_PER_SLIDE"
        using True ga(4) gb(4) by simp
      then show "\<forall>u\<in>set (ga @ gb). MAX_WORDS_PER_SLIDE < countWords u \<longrightarrow> ga @ gb = [u]"
        by (rule lone_small)
      show "runs_of sp (mergeSmallChunks cs) rest' \<or>
            (MAX_WORDS_PER_SLIDE < wordCount ?m \<and> countWords (last (ga @ gb)) \<le> 15 \<and>
             runs_of sp (mergeSmallChunks cs) (last (ga @ gb) # rest'))"
        using IH by simp
    qed
    then show ?thesis by (simp only: mergeSmallChunks_merge[OF True])
  next
    case False
    have "runs_of sp (a # mergeSmallChunks (b # cs)) S"
    proof (rule runs_of_ConsI[of ga _ rest])
      show "ga \<noteq> []" by (rule ga(1))
      show "S = ga @ rest" by (rule ga(2))
      show "content a = trim (join_with sp ga)" by (rule ga(3))
      show "wordCount a = sum_list (map countWords ga)" by (rule ga(4))
      show "\<forall>u\<in>set ga. MAX_WORDS_PER_SLIDE < countWords u \<longrightarrow> ga = [u]" by (rule ga(5))
      show "runs_of sp (mergeSmallChunks (b # cs)) rest \<or>
            (MAX_WORDS_PER_SLIDE < wordCount a \<and> countWords (last ga) \<le> 15 \<and>
             runs_of sp (mergeSmallChunks (b # cs)) (last ga # rest))"
        using A 3(2)[OF refl False tr(1)] 3(2)[OF refl False trl] by blast
    qed
    then show ?thesis by (simp only: mergeSmallChunks_keep[OF False])
  qed
qed

lemma runs_of_sublist:
  "runs_of sep cs S \<Longrightarrow> c \<in> set cs \<Longrightarrow>
     \<exists>g. g \<noteq> [] \<and> sublist g S \<and> content c = trim (join_with sep g) \<and>
         wordCount c = sum_list (map countWords g) \<and>
         (\<forall>u\<in>set g. MAX_WORDS_PER_SLIDE < countWords u \<longrightarrow> g = [u])"
proof (induction cs arbitrary: S)
  case Nil
  then show ?case by simp
next
  case (Cons a cs)
  from Cons.prems(1) obtain ga rest where ga: "ga \<noteq> []" "S = ga @ rest"
      "content a = trim (join_with sep ga)" "wordCount a = sum_list (map countWords ga)"
      "\<forall>u\<in>set ga. MAX_WORDS_PER_SLIDE < countWords u \<longrightarrow> ga = [u]"
    and A: "runs_of sep cs rest \<or>
            (MAX_WORDS_PER_SLIDE < wordCount a \<and> countWords (last ga) \<le> 15 \<and>
             runs_of sep cs (last ga # rest))"
    by (rule runs_of_ConsE)
  show ?case
  proof (cases "c = a")
    case True
    have "sublist ga S" using ga(2) by simp
    then show ?thesis using True ga by blast
  next
    case False
    then have c: "c \<in> set cs" using Cons.prems(2) by simp
    from A show ?thesis
    proof
      assume "runs_of sep cs rest"
      from Cons.IH[OF this c] obtain g where g: "g \<noteq> []" "sublist g rest"
          "content c = trim (join_with sep g)" "wordCount c = sum_list (map countWords g)"
          "\<forall>u\<in>set g. MAX_WORDS_PER_SLIDE < countWords u \<longrightarrow> g = [u]"
        by blast
      from g(2) have "sublist g S" unfolding ga(2) by (rule sublist_append_left)
      with g show ?thesis by blast
    next
      assume "MAX_WORDS_PER_SLIDE < wordCount a \<and> countWords (last ga) \<le> 15 \<and>
              runs_of sep cs (last ga # rest)"
      then have "runs_of sep cs (last ga # rest)" by simp
      from Cons.IH[OF this c] obtain g where g: "g \<noteq> []" "sublist g (last ga # rest)"
          "content c = trim (join_with sep g)" "wordCount c = sum_list (map countWords g)"
          "\<forall>u\<in>set g. MAX_WORDS_PER_SLIDE < countWords u \<longrightarrow> g = [u]"
        by blast
      have "S = butlast ga @ (last ga # rest)" using ga(1,2) by simp
      with g(2) have "sublist g S" by (simp only:) (rule sublist_append_left)
      with g show ?thesis by blast
    qed
  qed
qed

lemma runs_of_own_chunk:
  "runs_of sep cs S \<Longrightarrow> s \<in> set S \<Longrightarrow> MAX_WORDS_PER_SLIDE < countWords s \<Longrightarrow>
     \<lparr>content = trim s, wordCount = countWords s\<rparr> \<in> set cs"
proof (induction cs arbitrary: S)
  case Nil
  then show ?case by simp
next
  case (Cons a cs)
  from Cons.prems(1) obtain ga rest where ga: "ga \<noteq> []" "S = ga @ rest"
      "content a = trim (join_with sep ga)" "wordCount a = sum_list (map countWords ga)"
      "\<forall>u\<in>set ga. MAX_WORDS_PER_SLIDE < countWords u \<longrightarrow> ga = [u]"
    and A: "runs_of sep cs rest \<or>
            (MAX_WORDS_PER_SLIDE < wordCount a \<and> countWords (last ga) \<le> 15 \<and>
             runs_of sep cs (last ga # rest))"
    by (rule runs_of_ConsE)
  show ?case
  proof (cases "s \<in> set ga")
    case True
    with ga(5) Cons.prems(3) have "ga = [s]" by blast
    with ga(3,4) have "content a = trim s" "wordCount a = countWords s" by simp_all
    then have "a = \<lparr>content = trim s, wordCount = countWords s\<rparr>" by (cases a) simp
    then show ?thesis by simp
  next
    case False
    with Cons.prems(2) ga(2) have r: "s \<in> set rest" by simp
    from A show ?thesis
    proof
      assume "runs_of sep cs rest"
      from Cons.IH[OF this r Cons.prems(3)] show ?thesis by simp
    next
      assume "MAX_WORDS_PER_SLIDE < wordCount a \<and> countWords (last ga) \<le> 15 \<and>
              runs_of sep cs (last ga # rest)"
      then have 1: "runs_of sep cs (last ga # rest)" by simp
      have 2: "s \<in> set (last ga # rest)" using r by simp
      from Cons.IH[OF 1 2 Cons.prems(3)] show ?thesis by simp
    qed
  qed
qed

lemma reading_runs:
  "runs_of sp (optimizeContentForWordCount text) (splitIntoSentences text)"
proof -
  have S: "\<forall>u\<in>set (splitIntoSentences text). trimmed u" using sentences_trimmed by blast
  then have "runs_of sp (pack_sentences (splitIntoSentences text) [] [] 0)
               ([] @ splitIntoSentences text)"
    by (intro pack_sentences_runs) (simp_all add: countWords_Nil)
  then show ?thesis
    unfolding optimizeContentForWordCount_def using S by (simp add: mergeSmallChunks_runs)
qed

lemma reading_sublists:
  assumes "c \<in> set (optimizeContentForWordCount text)"
  shows "\<exists>us. us \<noteq> [] \<and> sublist us (splitIntoSentences text) \<and>
           content c = join_with sp us \<and> wordCount c = sum_list (map countWords us) \<and>
           (\<forall>u\<in>set us. MAX_WORDS_PER_SLIDE < countWords u \<longrightarrow> us = [u])"
proof -
  from runs_of_sublist[OF reading_runs assms] obtain g where
    g: "g \<noteq> []" "sublist g (splitIntoSentences text)" "content c = trim (join_with sp g)"
      "wordCount c = sum_list (map countWords g)"
      "\<forall>u\<in>set g. MAX_WORDS_PER_SLIDE < countWords u \<longrightarrow> g = [u]"
    by blast
  have "set g \<subseteq> set (splitIntoSentences text)" using g(2) by (rule set_mono_sublist)
  then have "\<forall>u\<in>set g. trimmed u" using sentences_trimmed by blast
  then have "trim (join_with sp g) = join_with sp g" using g(1) by (intro trim_join_trimmed)
  with g show ?thesis by auto
qed

lemma reading_own_chunk:
  assumes "s \<in> set (splitIntoSentences text)" "MAX_WORDS_PER_SLIDE < countWords s"
  shows "\<lparr>content = s, wordCount = countWords s\<rparr> \<in> set (optimizeContentForWordCount text)"
  using runs_of_own_chunk[OF reading_runs assms] sentences_trimmed[OF assms(1)]
  by (simp add: trim_trimmed)

lemma pack_lines_runs:
  "\<forall>u\<in>set (g @ ls). 0 < countWords u \<Longrightarrow> cur = foldl (append_unit nl) [] g \<Longrightarrow>
   cw = sum_list (map countWords g) \<Longrightarrow>
   \<forall>u\<in>set g. MAX_WORDS_PER_SLIDE < countWords u \<longrightarrow> g = [u] \<Longrightarrow>
     runs_of nl (map chunk_of (pack_lines t ls [] cur cw)) (g @ ls)"
proof (induction ls arbitrary: g cur cw)
  case Nil
  have tc: "trim cur = trim (join_with nl g)"
    using Nil.prems(2) by (simp add: trim_foldl_append_unit isWhiteSpace_nl)
  have cwc: "cw = countWords cur"
    using Nil.prems(2,3) by (simp add: countWords_foldl_append_unit isWhiteSpace_nl countWords_Nil)
  show ?case
  proof (cases "g = []")
    case True
    with Nil show ?thesis by (simp add: trim_Nil)
  next
    case False
    then obtain u where "u \<in> set g" by (cases g) auto
    then have "0 < countWords u" "countWords u \<le> cw"
      using Nil.prems(1,3) countWords_le_sum[of u g] by auto
    then have "trim cur \<noteq> []" using cwc by (simp add: trim_nonempty_iff)
    then have "map chunk_of (pack_lines t [] [] cur cw) =
               [\<lparr>content = trim cur, wordCount = cw\<rparr>]"
      by (simp add: chunk_of_verse)
    moreover have "runs_of nl [\<lparr>content = trim cur, wordCount = cw\<rparr>] (g @ [])"
    proof (rule runs_of_ConsI[of g _ "[]"])
      show "g \<noteq> []" by (rule False)
      show "g @ [] = g @ []" by simp
      show "content \<lparr>content = trim cur, wordCount = cw\<rparr> = trim (join_with nl g)"
        using tc by simp
      show "wordCount \<lparr>content = trim cur, wordCount = cw\<rparr> = sum_list (map countWords g)"
        using Nil.prems(3) by simp
      show "\<forall>u\<in>set g. MAX_WORDS_PER_SLIDE < countWords u \<longrightarrow> g = [u]" by (rule Nil.prems(4))
      show "runs_of nl [] [] \<or>
            (MAX_WORDS_PER_SLIDE < wordCount \<lparr>content = trim cur, wordCount = cw\<rparr> \<and>
             countWords (last g) \<le> 15 \<and> runs_of nl [] [last g])"
        by simp
    qed
    ultimately show ?thesis by (simp only:)
  qed
next
  case (Cons l ls)
  let ?n = "countWords l"
  have tc: "trim cur = trim (join_with nl g)"
    using Cons.prems(2) by (simp add: trim_foldl_append_unit isWhiteSpace_nl)
  have all: "\<forall>u\<in>set ((g @ [l]) @ ls). 0 < countWords u" using Cons.prems(1) by auto
  have all1: "\<forall>u\<in>set ([l] @ ls). 0 < countWords u" using Cons.prems(1) by auto
  have one: "l = foldl (append_unit nl) [] [l]" by (simp add: append_unit_Nil)
  have n1: "?n = sum_list (map countWords [l])" by simp
  have lone1: "\<forall>u\<in>set [l]. MAX_WORDS_PER_SLIDE < countWords u \<longrightarrow> [l] = [u]" by simp
  have restart: "runs_of nl (map chunk_of (pack_lines t ls [] l ?n)) (l # ls)"
    using Cons.IH[OF all1 one n1 lone1] by simp
  show ?case
  proof (cases "MAX_WORDS_PER_SLIDE < cw + ?n \<and> 0 < cw")
    case False
    have 2: "append_unit nl cur l = foldl (append_unit nl) [] (g @ [l])"
      using Cons.prems(2) by simp
    have 3: "cw + ?n = sum_list (map countWords (g @ [l]))" using Cons.prems(3) by simp
    have lone': "\<forall>u\<in>set (g @ [l]). MAX_WORDS_PER_SLIDE < countWords u \<longrightarrow> g @ [l] = [u]"
    proof (cases "cw = 0")
      case True
      have "g = []"
      proof (rule ccontr)
        assume "g \<noteq> []"
        then obtain u where "u \<in> set g" by (cases g) auto
        then have "0 < countWords u" "countWords u \<le> cw"
          using Cons.prems(1,3) countWords_le_sum[of u g] by auto
        with True show False by simp
      qed
      then show ?thesis by simp
    next
      case nz: False
      with False have "cw + ?n \<le> MAX_WORDS_PER_SLIDE" by simp
      then have "sum_list (map countWords (g @ [l])) \<le> MAX_WORDS_PER_SLIDE"
        using 3 by simp
      then show ?thesis by (rule lone_small)
    qed
    from Cons.IH[OF all 2 3 lone'] show ?thesis
      by (simp only: pack_lines_append[OF False]) simp
  next
    case True
    then have c: "MAX_WORDS_PER_SLIDE < cw + ?n" "0 < cw" by simp_all
    have g: "g \<noteq> []" using c(2) Cons.prems(3) by auto
    have "pack_lines t (l # ls) [] cur cw =
          \<lparr>content = trim cur, wordCount = cw, type = t\<rparr> # pack_lines t ls [] l ?n"
      using pack_lines_acc[of t ls "[\<lparr>content = trim cur, wordCount = cw, type = t\<rparr>]" l ?n]
      by (simp add: pack_lines_close[OF c])
    then have "map chunk_of (pack_lines t (l # ls) [] cur cw) =
          \<lparr>content = trim cur, wordCount = cw\<rparr> # map chunk_of (pack_lines t ls [] l ?n)"
      by (simp add: chunk_of_verse)
    moreover have "runs_of nl (\<lparr>content = trim cur, wordCount = cw\<rparr> #
                     map chunk_of (pack_lines t ls [] l ?n)) (g @ l # ls)"
    proof (rule runs_of_ConsI[of g _ "l # ls"])
      show "g \<noteq> []" by (rule g)
      show "g @ l # ls = g @ l # ls" by simp
      show "content \<lparr>content = trim cur, wordCount = cw\<rparr> = trim (join_with nl g)"
        using tc by simp
      show "wordCount \<lparr>content = trim cur, wordCount = cw\<rparr> = sum_list (map countWords g)"
        using Cons.prems(3) by simp
      show "\<forall>u\<in>set g. MAX_WORDS_PER_SLIDE < countWords u \<longrightarrow> g = [u]"
        by (rule Cons.prems(4))
      show "runs_of nl (map chunk_of (pack_lines t ls [] l ?n)) (l # ls) \<or>
            (MAX_WORDS_PER_SLIDE < wordCount \<lparr>content = trim cur, wordCount = cw\<rparr> \<and>
             countWords (last g) \<le> 15 \<and>
             runs_of nl (map chunk_of (pack_lines t ls [] l ?n)) (last g # l # ls))"
        using restart by simp
    qed
    ultimately show ?thesis by (simp only:)
  qed
qed

lemma optimizeSection_runs:
  assumes "trimmed (fst sec)"
    and "\<forall>l\<in>set (js_split match_nl None [] (fst sec)). 0 < countWords l"
  shows "runs_of nl (map chunk_of (optimizeSection [] sec))
           (js_split match_nl None [] (fst sec))"
proof (cases "countWords (fst sec) \<le> MAX_WORDS_PER_SLIDE")
  case True
  let ?ls = "js_split match_nl None [] (fst sec)"
  let ?c = "\<lparr>content = fst sec, wordCount = countWords (fst sec)\<rparr>"
  have sum: "sum_list (map countWords ?ls) = countWords (fst sec)"
    using assms(1) by (rule lines_of_section(2))
  have "map chunk_of (optimizeSection [] sec) = [?c]"
    using True by (simp add: optimizeSection_def chunk_of_verse)
  moreover have "runs_of nl [?c] ?ls"
  proof (rule runs_of_ConsI[of ?ls _ "[]"])
    show "?ls \<noteq> []" by (rule js_split_nonempty)
    show "?ls = ?ls @ []" by simp
    show "content ?c = trim (join_with nl ?ls)"
      using assms(1) by (simp add: join_split_nl trim_trimmed)
    show "wordCount ?c = sum_list (map countWords ?ls)" using sum by simp
    have "sum_list (map countWords ?ls) \<le> MAX_WORDS_PER_SLIDE" using True sum by simp
    then show "\<forall>u\<in>set ?ls. MAX_WORDS_PER_SLIDE < countWords u \<longrightarrow> ?ls = [u]"
      by (rule lone_small)
    show "runs_of nl [] [] \<or>
          (MAX_WORDS_PER_SLIDE < wordCount ?c \<and> countWords (last ?ls) \<le> 15 \<and>
           runs_of nl [] [last ?ls])"
      by simp
  qed
  ultimately show ?thesis by (simp only:)
next
  case False
  have "runs_of nl (map chunk_of
          (pack_lines (snd sec) (js_split match_nl None [] (fst sec)) [] [] 0))
          ([] @ js_split match_nl None [] (fst sec))"
    using assms(2) by (intro pack_lines_runs) simp_all
  then show ?thesis using False by (simp add: optimizeSection_def)
qed

lemma section_runs:
  assumes "sec \<in> set (splitSongIntoSections lyr)"
  shows "runs_of nl (map chunk_of (optimizeSection [] sec))
           (js_split match_nl None [] (fst sec))"
  using optimizeSection_runs[OF sections_trimmed[OF assms]] section_lines_words[OF assms]
  by blast

lemma song_sublists:
  assumes "v \<in> set (optimizeSongForWordCount lyr)"
  shows "\<exists>sec\<in>set (splitSongIntoSections lyr).
       \<exists>us. us \<noteq> [] \<and> sublist us (js_split match_nl None [] (fst sec)) \<and>
            content v = trim (join_with nl us) \<and>
            wordCount v = sum_list (map countWords us) \<and> type v = snd sec \<and>
            (\<forall>u\<in>set us. MAX_WORDS_PER_SLIDE < countWords u \<longrightarrow> us = [u])"
proof -
  from assms obtain sec where sec: "sec \<in> set (splitSongIntoSections lyr)"
      "v \<in> set (optimizeSection [] sec)"
    by (auto simp: optimizeSong_concat)
  from sec(2) have "chunk_of v \<in> set (map chunk_of (optimizeSection [] sec))" by simp
  from runs_of_sublist[OF section_runs[OF sec(1)] this] obtain g where
    g: "g \<noteq> []" "sublist g (js_split match_nl None [] (fst sec))"
      "content (chunk_of v) = trim (join_with nl g)"
      "wordCount (chunk_of v) = sum_list (map countWords g)"
      "\<forall>u\<in>set g. MAX_WORDS_PER_SLIDE < countWords u \<longrightarrow> g = [u]"
    by blast
  have ty: "type v = snd sec" using optimizeSection_type sec(2) by blast
  have "content v = trim (join_with nl g)" "wordCount v = sum_list (map countWords g)"
    using g(3,4) by (simp_all add: chunk_of_def)
  with g(1,2,5) ty sec(1) show ?thesis by blast
qed

lemma song_own_chunk:
  assumes "sec \<in> set (splitSongIntoSections lyr)"
    and "l \<in> set (js_split match_nl None [] (fst sec))"
    and "MAX_WORDS_PER_SLIDE < countWords l"
  shows "\<lparr>content = trim l, wordCount = countWords l, type = snd sec\<rparr> \<in>
           set (optimizeSongForWordCount lyr)"
proof -
  from runs_of_own_chunk[OF section_runs[OF assms(1)] assms(2,3)]
  obtain v where v: "v \<in> set (optimizeSection [] sec)"
      "chunk_of v = \<lparr>content = trim l, wordCount = countWords l\<rparr>"
    by auto
  have "type v = snd sec" using optimizeSection_type v(1) by blast
  with v(2) have "v = \<lparr>content = trim l, wordCount = countWords l, type = snd sec\<rparr>"
    by (cases v) (simp add: chunk_of_def)
  with v(1) assms(1) show ?thesis by (auto simp: optimizeSong_concat)
qed

lemma mot10: "trimmed (sentence_of 10 (js ''mot''))" "countWords (sentence_of 10 (js ''mot'')) = 10"
  "nl \<notin> set (sentence_of 10 (js ''mot''))"
  using trimmed_sentence_of[OF plain_mot(1) plain_mot_ws, of 9]
    countWords_sentence_of[OF plain_mot(1) plain_mot_ws, of 9]
    nl_notin_sentence_of[OF plain_mot_ws, of 10]
  by simp_all

lemma mot200: "trimmed (sentence_of 200 (js ''mot''))"
  "countWords (sentence_of 200 (js ''mot'')) = 200"
  "nl \<notin> set (sentence_of 200 (js ''mot''))"
  using trimmed_sentence_of[OF plain_mot(1) plain_mot_ws, of 199]
    countWords_sentence_of[OF plain_mot(1) plain_mot_ws, of 199]
    nl_notin_sentence_of[OF plain_mot_ws, of 200]
  by simp_all

lemma long_sentence_text_sentences:
  "splitIntoSentences long_sentence_text =
     [sentence_of 10 (js ''mot''), sentence_of 200 (js ''mot'')]"
proof -
  have "splitIntoSentences
          (join_with sp (map (\<lambda>(n, w). sentence_of n w) [(10, js ''mot''), (200, js ''mot'')])) =
        map (\<lambda>(n, w). sentence_of n w) [(10, js ''mot''), (200, js ''mot'')]"
    using plain_mot by (intro splitIntoSentences_of) simp_all
  then show ?thesis by (simp add: long_sentence_text_def)
qed

lemma long_sentence_text_chunks:
  "optimizeContentForWordCount long_sentence_text =
     [\<lparr>content = sentence_of 10 (js ''mot''), wordCount = 10\<rparr>,
      \<lparr>content = sentence_of 200 (js ''mot''), wordCount = 200\<rparr>]"
proof -
  let ?a = "sentence_of 10 (js ''mot'')"
  let ?b = "sentence_of 200 (js ''mot'')"
  have t: "trim ?a = ?a" "trim ?b = ?b" "?a \<noteq> []" "?b \<noteq> []"
    using mot10(1) mot200(1) by (simp_all add: trim_trimmed trimmed_nonempty)
  have "pack_sentences [?a, ?b] [] [] 0 =
     [\<lparr>content = ?a, wordCount = 10\<rparr>, \<lparr>content = ?b, wordCount = 200\<rparr>]"
    using t
    by (simp add: pack_sentences_append pack_sentences_close mot10(2) mot200(2)
        append_unit_Nil MAX_WORDS_PER_SLIDE_def MIN_WORDS_PER_SLIDE_def)
  then show ?thesis
    by (simp add: optimizeContentForWordCount_def long_sentence_text_sentences
        MAX_WORDS_PER_SLIDE_def MIN_WORDS_PER_SLIDE_def)
qed

lemma long_line_section_lines:
  "js_split match_nl None [] long_line_section =
     [sentence_of 10 (js ''mot''), sentence_of 200 (js ''mot'')]"
  using split_nl_two_lines[OF mot10(3) mot200(3)] by (simp add: long_line_section_def)

lemma long_line_section_trimmed: "trimmed long_line_section"
  using trimmed_sep[OF mot10(1) mot200(1), of nl] by (simp add: long_line_section_def)

lemma long_line_section_words: "countWords long_line_section = 210"
  using mot10(2) mot200(2)
  by (simp add: long_line_section_def countWords_word_starts word_starts_sep isWhiteSpace_nl)

lemma long_line_section_sections:
  "splitSongIntoSections long_line_section = [(long_line_section, Verse)]"
proof (rule sections_of_block)
  show "js_split match_blank_line None [] long_line_section = [long_line_section]"
    using split_blank_two_lines[OF mot10(3) mot200(3)] mot200(1)
    by (simp add: long_line_section_def trimmed_def)
  show "trimmed long_line_section" by (rule long_line_section_trimmed)
  show "\<forall>c\<in>set long_line_section. c \<noteq> 0x52 \<and> c \<noteq> 0x72"
    using set_sentence_of[of 10 "js ''mot''"] set_sentence_of[of 200 "js ''mot''"] mot_chars
    by (auto simp: long_line_section_def)
  have "hd long_line_section = hd (sentence_of (Suc 9) (js ''mot''))"
    using mot10(1) by (simp add: long_line_section_def trimmed_def)
  then show "\<not> isDigit (hd long_line_section)"
    using hd_sentence_of[OF plain_mot(1), of 9] mot_hd by simp
qed

lemma long_line_section_song:
  "optimizeSongForWordCount long_line_section =
     [\<lparr>content = sentence_of 10 (js ''mot''), wordCount = 10, type = Verse\<rparr>,
      \<lparr>content = sentence_of 200 (js ''mot''), wordCount = 200, type = Verse\<rparr>]"
  using mot10 mot200
  by (simp add: optimizeSongForWordCount_def long_line_section_sections optimizeSection_def
      long_line_section_words long_line_section_lines pack_lines_append pack_lines_close
      append_unit_Nil trim_trimmed trimmed_nonempty MAX_WORDS_PER_SLIDE_def)

lemma single_long_sentence:
  "splitIntoSentences (sentence_of 200 (js ''mot'')) = [sentence_of 200 (js ''mot'')]"
  "splitSongIntoSections (sentence_of 200 (js ''mot'')) =
     [(sentence_of 200 (js ''mot''), Verse)]"
proof -
  let ?s = "sentence_of 200 (js ''mot'')"
  have "splitIntoSentences (join_with sp (map (\<lambda>(n, w). sentence_of n w) [(200, js ''mot'')])) =
        map (\<lambda>(n, w). sentence_of n w) [(200, js ''mot'')]"
    using plain_mot by (intro splitIntoSentences_of) simp_all
  then show "splitIntoSentences ?s = [?s]" by simp
  have h: "\<not> isDigit (hd ?s)"
    using hd_sentence_of[OF plain_mot(1), of 199] mot_hd by simp
  have c: "\<forall>c\<in>set ?s. c \<noteq> 0x52 \<and> c \<noteq> 0x72"
    using set_sentence_of[of 200 "js ''mot''"] mot_chars by blast
  show "splitSongIntoSections ?s = [(?s, Verse)]"
    using split_blank_single[OF mot200(3), of None "[]"] mot200(1) c h
    by (intro sections_of_block) simp_all
qed

text \<open>
  C8.  Every chunk of reading mode is the join, with single spaces, of a run of
  consecutive whole sentences of the text, and every chunk of song mode is the trimmed
  join, with newlines, of a run of consecutive whole lines of one section: no sentence
  and no line is cut.  The word count of a chunk is the sum of the word counts of the
  units of its run.  A unit of more than \<open>MAX\<close> words, wherever it stands among the
  units, is the only unit of its run: every sentence of more than \<open>MAX\<close> words is the
  content of a chunk of its own, whose word count is that of the sentence, and so is,
  trimmed, every line of more than \<open>MAX\<close> words of a section.  The chunks of a text, and
  those of each section, are such runs in the order of the units and cover all of them
  (\<open>runs_of\<close>), so that a unit of more than \<open>MAX\<close> words lies in no other chunk.  A
  text that is a single sentence, and lyrics that are a single line, give exactly one
  chunk holding it whole with its full word count, however long it is.
\<close>

theorem units_never_split:
  "(\<forall>c\<in>set (optimizeContentForWordCount text).
      \<exists>us. us \<noteq> [] \<and> sublist us (splitIntoSentences text) \<and>
           content c = join_with sp us \<and>
           wordCount c = sum_list (map countWords us) \<and>
           (\<forall>u\<in>set us. MAX_WORDS_PER_SLIDE < countWords u \<longrightarrow> us = [u])) \<and>
   (\<forall>sentence\<in>set (splitIntoSentences text).
      MAX_WORDS_PER_SLIDE < countWords sentence \<longrightarrow>
      \<lparr>content = sentence, wordCount = countWords sentence\<rparr> \<in>
        set (optimizeContentForWordCount text)) \<and>
   runs_of sp (optimizeContentForWordCount text) (splitIntoSentences text) \<and>
   (\<forall>v\<in>set (optimizeSongForWordCount lyr).
      \<exists>sec\<in>set (splitSongIntoSections lyr).
        \<exists>us. us \<noteq> [] \<and> sublist us (js_split match_nl None [] (fst sec)) \<and>
             content v = trim (join_with nl us) \<and>
             wordCount v = sum_list (map countWords us) \<and> type v = snd sec \<and>
             (\<forall>u\<in>set us. MAX_WORDS_PER_SLIDE < countWords u \<longrightarrow> us = [u])) \<and>
   (\<forall>sec\<in>set (splitSongIntoSections lyr).
      \<forall>line\<in>set (js_split match_nl None [] (fst sec)).
        MAX_WORDS_PER_SLIDE < countWords line \<longrightarrow>
        \<lparr>content = trim line, wordCount = countWords line, type = snd sec\<rparr> \<in>
          set (optimizeSongForWordCount lyr)) \<and>
   (\<forall>sec\<in>set (splitSongIntoSections lyr).
      runs_of nl (map chunk_of (optimizeSection [] sec))
        (js_split match_nl None [] (fst sec))) \<and>
   (splitIntoSentences text = [s] \<longrightarrow>
      optimizeContentForWordCount text = [\<lparr>content = s, wordCount = countWords s\<rparr>]) \<and>
   (splitSongIntoSections lyr = [(l, t)] \<and> nl \<notin> set l \<longrightarrow>
      optimizeSongForWordCount lyr = [\<lparr>content = l, wordCount = countWords l, type = t\<rparr>])"
proof (intro conjI ballI impI)
  fix c
  assume "c \<in> set (optimizeContentForWordCount text)"
  then show "\<exists>us. us \<noteq> [] \<and> sublist us (splitIntoSentences text) \<and>
           content c = join_with sp us \<and>
           wordCount c = sum_list (map countWords us) \<and>
           (\<forall>u\<in>set us. MAX_WORDS_PER_SLIDE < countWords u \<longrightarrow> us = [u])"
    by (rule reading_sublists)
next
  fix sentence
  assume "sentence \<in> set (splitIntoSentences text)" "MAX_WORDS_PER_SLIDE < countWords sentence"
  then show "\<lparr>content = sentence, wordCount = countWords sentence\<rparr> \<in>
        set (optimizeContentForWordCount text)"
    by (rule reading_own_chunk)
next
  show "runs_of sp (optimizeContentForWordCount text) (splitIntoSentences text)"
    by (rule reading_runs)
next
  fix v
  assume "v \<in> set (optimizeSongForWordCount lyr)"
  then show "\<exists>sec\<in>set (splitSongIntoSections lyr).
        \<exists>us. us \<noteq> [] \<and> sublist us (js_split match_nl None [] (fst sec)) \<and>
             content v = trim (join_with nl us) \<and>
             wordCount v = sum_list (map countWords us) \<and> type v = snd sec \<and>
             (\<forall>u\<in>set us. MAX_WORDS_PER_SLIDE < countWords u \<longrightarrow> us = [u])"
    by (rule song_sublists)
next
  fix sec line
  assume "sec \<in> set (splitSongIntoSections lyr)"
    "line \<in> set (js_split match_nl None [] (fst sec))"
    "MAX_WORDS_PER_SLIDE < countWords line"
  then show "\<lparr>content = trim line, wordCount = countWords line, type = snd sec\<rparr> \<in>
          set (optimizeSongForWordCount lyr)"
    by (rule song_own_chunk)
next
  fix sec
  assume "sec \<in> set (splitSongIntoSections lyr)"
  then show "runs_of nl (map chunk_of (optimizeSection [] sec))
        (js_split match_nl None [] (fst sec))"
    by (rule section_runs)
next
  assume "splitIntoSentences text = [s]"
  then show "optimizeContentForWordCount text = [\<lparr>content = s, wordCount = countWords s\<rparr>]"
    by (rule reading_single_sentence)
next
  assume "splitSongIntoSections lyr = [(l, t)] \<and> nl \<notin> set l"
  then show "optimizeSongForWordCount lyr =
      [\<lparr>content = l, wordCount = countWords l, type = t\<rparr>]"
    using song_single_line[of lyr l t] by simp
qed

theorem units_never_split_witness:
  "splitIntoSentences long_sentence_text =
     [sentence_of 10 (js ''mot''), sentence_of 200 (js ''mot'')] \<and>
   countWords (sentence_of 10 (js ''mot'')) = 10 \<and>
   countWords (sentence_of 200 (js ''mot'')) = 200 \<and>
   MAX_WORDS_PER_SLIDE < 200 \<and>
   \<lparr>content = sentence_of 200 (js ''mot''), wordCount = 200\<rparr> \<in>
     set (optimizeContentForWordCount long_sentence_text) \<and>
   optimizeContentForWordCount long_sentence_text =
     [\<lparr>content = sentence_of 10 (js ''mot''), wordCount = 10\<rparr>,
      \<lparr>content = sentence_of 200 (js ''mot''), wordCount = 200\<rparr>] \<and>
   splitSongIntoSections long_line_section = [(long_line_section, Verse)] \<and>
   js_split match_nl None [] long_line_section =
     [sentence_of 10 (js ''mot''), sentence_of 200 (js ''mot'')] \<and>
   \<lparr>content = sentence_of 200 (js ''mot''), wordCount = 200, type = Verse\<rparr> \<in>
     set (optimizeSongForWordCount long_line_section) \<and>
   optimizeSongForWordCount long_line_section =
     [\<lparr>content = sentence_of 10 (js ''mot''), wordCount = 10, type = Verse\<rparr>,
      \<lparr>content = sentence_of 200 (js ''mot''), wordCount = 200, type = Verse\<rparr>] \<and>
   splitIntoSentences (sentence_of 200 (js ''mot'')) = [sentence_of 200 (js ''mot'')] \<and>
   optimizeContentForWordCount (sentence_of 200 (js ''mot'')) =
     [\<lparr>content = sentence_of 200 (js ''mot''), wordCount = 200\<rparr>] \<and>
   splitSongIntoSections (sentence_of 200 (js ''mot'')) =
     [(sentence_of 200 (js ''mot''), Verse)] \<and>
   nl \<notin> set (sentence_of 200 (js ''mot'')) \<and>
   optimizeSongForWordCount (sentence_of 200 (js ''mot'')) =
     [\<lparr>content = sentence_of 200 (js ''mot''), wordCount = 200, type = Verse\<rparr>]"
proof -
  let ?a = "sentence_of 10 (js ''mot'')"
  let ?s = "sentence_of 200 (js ''mot'')"
  note many = units_never_split[of long_sentence_text long_line_section ?s ?s Verse]
  note single = units_never_split[of ?s ?s ?s ?s Verse]
  have m: "MAX_WORDS_PER_SLIDE < 200" by (simp add: MAX_WORDS_PER_SLIDE_def)
  have big: "MAX_WORDS_PER_SLIDE < countWords ?s" using m by (simp only: mot200(2))
  have "?s \<in> set (splitIntoSentences long_sentence_text)"
    by (simp add: long_sentence_text_sentences)
  with many[THEN conjunct2, THEN conjunct1] big
  have "\<lparr>content = ?s, wordCount = countWords ?s\<rparr> \<in>
          set (optimizeContentForWordCount long_sentence_text)"
    by blast
  then have r: "\<lparr>content = ?s, wordCount = 200\<rparr> \<in>
          set (optimizeContentForWordCount long_sentence_text)"
    by (simp only: mot200(2))
  have "(long_line_section, Verse) \<in> set (splitSongIntoSections long_line_section)"
    "?s \<in> set (js_split match_nl None [] (fst (long_line_section, Verse)))"
    by (simp_all add: long_line_section_sections long_line_section_lines)
  with many[THEN conjunct2, THEN conjunct2, THEN conjunct2, THEN conjunct2, THEN conjunct1] big
  have "\<lparr>content = trim ?s, wordCount = countWords ?s, type = snd (long_line_section, Verse)\<rparr> \<in>
          set (optimizeSongForWordCount long_line_section)"
    by blast
  then have v: "\<lparr>content = ?s, wordCount = 200, type = Verse\<rparr> \<in>
          set (optimizeSongForWordCount long_line_section)"
    using mot200(1) by (simp add: trim_trimmed mot200(2))
  from single[THEN conjunct2, THEN conjunct2, THEN conjunct2, THEN conjunct2, THEN conjunct2,
      THEN conjunct2, THEN conjunct1] single_long_sentence(1)
  have o1: "optimizeContentForWordCount ?s = [\<lparr>content = ?s, wordCount = 200\<rparr>]"
    by (simp add: mot200(2))
  from single[THEN conjunct2, THEN conjunct2, THEN conjunct2, THEN conjunct2, THEN conjunct2,
      THEN conjunct2, THEN conjunct2] single_long_sentence(2) mot200(3)
  have o2: "optimizeSongForWordCount ?s = [\<lparr>content = ?s, wordCount = 200, type = Verse\<rparr>]"
    by (simp add: mot200(2))
  show ?thesis
    using long_sentence_text_sentences mot10(2) mot200(2) m r long_sentence_text_chunks
      long_line_section_sections long_line_section_lines v long_line_section_song
      single_long_sentence(1) o1 single_long_sentence(2) mot200(3) o2
    by (intro conjI)
qed

end
